theory Spec2Isabelle
  imports Complex_Main "HOL-Library.Multiset"
begin

section \<open>JavaScript values\<close>

text \<open>
  The values that travel through \<^verbatim>\<open>MCPClient\<close> (src/index.ts) are what \<^verbatim>\<open>JSON.parse\<close>
  produces, plus \<^verbatim>\<open>undefined\<close> for an absent property. Every finite double is a rational
  number and the client only compares numbers and tests them for zero, so numbers are
  \<^typ>\<open>rat\<close>. An object is the list of its own enumerable properties in the order of
  \<^verbatim>\<open>Object.keys\<close>. \<open>JObj\<close> is an object with the prototype every parsed object and
  every object literal has; \<open>JProto\<close> is an object whose prototype has been replaced, by
  an object, an array or \<^verbatim>\<open>null\<close>, which only an assignment to \<^verbatim>\<open>__proto__\<close> does.
\<close>

datatype json =
    JUndefined
  | JNull
  | JBool bool
  | JNum rat
  | JStr string
  | JArr "json list"
  | JObj "(string \<times> json) list"
  | JProto "(string \<times> json) list" json

text \<open>Truthiness, as \<^verbatim>\<open>if (v)\<close> and \<^verbatim>\<open>a || b\<close> test it.\<close>

fun truthy :: "json \<Rightarrow> bool" where
  "truthy JUndefined = False"
| "truthy JNull = False"
| "truthy (JBool b) = b"
| "truthy (JNum n) = (n \<noteq> 0)"
| "truthy (JStr s) = (s \<noteq> [])"
| "truthy (JArr items) = True"
| "truthy (JObj entries) = True"
| "truthy (JProto entries proto) = True"

text \<open>\<^verbatim>\<open>typeof v === 'object'\<close>: true of objects, arrays and \<^verbatim>\<open>null\<close>.\<close>

fun typeof_object :: "json \<Rightarrow> bool" where
  "typeof_object JNull = True"
| "typeof_object (JArr items) = True"
| "typeof_object (JObj entries) = True"
| "typeof_object (JProto entries proto) = True"
| "typeof_object data = False"

text \<open>
  \<^verbatim>\<open>v.key\<close> for the property names the client reads (\<^verbatim>\<open>id\<close>, \<^verbatim>\<open>error\<close>, \<^verbatim>\<open>result\<close>,
  \<^verbatim>\<open>message\<close>, \<^verbatim>\<open>content\<close>, \<^verbatim>\<open>text\<close> and the empty name), none of which is found on a
  built-in prototype. A property that is not the object's own is looked up in a replaced
  prototype. Reading a property of \<^verbatim>\<open>null\<close> or \<^verbatim>\<open>undefined\<close> throws a TypeError, which
  is the value \<open>None\<close> here.
\<close>

fun get_prop :: "json \<Rightarrow> string \<Rightarrow> json option" where
  "get_prop JUndefined key = None"
| "get_prop JNull key = None"
| "get_prop (JObj entries) key =
     Some (case map_of entries key of None \<Rightarrow> JUndefined | Some v \<Rightarrow> v)"
| "get_prop (JProto entries proto) key =
     Some (case map_of entries key of
             Some v \<Rightarrow> v
           | None \<Rightarrow> (case get_prop proto key of None \<Rightarrow> JUndefined | Some v \<Rightarrow> v))"
| "get_prop data key = Some JUndefined"

text \<open>\<^verbatim>\<open>v?.key\<close>: optional chaining yields \<^verbatim>\<open>undefined\<close> where \<^verbatim>\<open>v.key\<close> would throw.\<close>

definition opt_prop :: "json \<Rightarrow> string \<Rightarrow> json" where
  "opt_prop v key = (case get_prop v key of None \<Rightarrow> JUndefined | Some x \<Rightarrow> x)"

text \<open>
  \<^verbatim>\<open>v?.[0]\<close>: the first element of an array, the first character of a string, the
  property named \<^verbatim>\<open>0\<close> of an object, its own or the one of a replaced prototype.
\<close>

fun opt_index0 :: "json \<Rightarrow> json" where
  "opt_index0 (JArr []) = JUndefined"
| "opt_index0 (JArr (item # items)) = item"
| "opt_index0 (JStr []) = JUndefined"
| "opt_index0 (JStr (c # cs)) = JStr [c]"
| "opt_index0 (JObj entries) =
     (case map_of entries ''0'' of None \<Rightarrow> JUndefined | Some v \<Rightarrow> v)"
| "opt_index0 (JProto entries proto) =
     (case map_of entries ''0'' of None \<Rightarrow> opt_index0 proto | Some v \<Rightarrow> v)"
| "opt_index0 data = JUndefined"

text \<open>
  Defining or replacing an own property: the value of an existing property is replaced in
  place, a new property is added last.
\<close>

fun set_own :: "(string \<times> json) list \<Rightarrow> string \<Rightarrow> json \<Rightarrow> (string \<times> json) list" where
  "set_own [] key v = [(key, v)]"
| "set_own ((k, old) # rest) key v =
     (if k = key then (k, v) # rest else (k, old) # set_own rest key v)"

text \<open>
  \<^verbatim>\<open>normalized[key] = v\<close> on the object that \<^verbatim>\<open>normalizeData\<close> builds from \<^verbatim>\<open>{}\<close>, held
  as its own properties and its prototype if one has been put in place of the first. The
  name \<^verbatim>\<open>__proto__\<close> is an accessor inherited by every such object: assigning to it
  defines no property; it replaces the prototype when the value is an object, an array or
  \<^verbatim>\<open>null\<close> and does nothing otherwise. Every other name defines or replaces an own
  property.
\<close>

fun assign ::
    "(string \<times> json) list \<times> json option \<Rightarrow> string \<Rightarrow> json \<Rightarrow>
     (string \<times> json) list \<times> json option" where
  "assign (props, proto) key v =
     (if key = ''__proto__''
      then (props, if typeof_object v then Some v else proto)
      else (set_own props key v, proto))"

text \<open>The object built, as a value.\<close>

fun built :: "(string \<times> json) list \<times> json option \<Rightarrow> json" where
  "built (props, None) = JObj props"
| "built (props, Some proto) = JProto props proto"

text \<open>
  The objects of the language have pairwise distinct property names: \<open>wf_json\<close> holds of
  every value of the language.
\<close>

fun wf_json :: "json \<Rightarrow> bool" where
  "wf_json (JArr items) = (\<forall>v \<in> set items. wf_json v)"
| "wf_json (JObj entries) =
     (distinct (map fst entries) \<and> (\<forall>e \<in> set entries. wf_json (snd e)))"
| "wf_json (JProto entries proto) =
     (distinct (map fst entries) \<and> (\<forall>e \<in> set entries. wf_json (snd e)) \<and> wf_json proto)"
| "wf_json data = True"

text \<open>
  The values in which no object has a property named \<^verbatim>\<open>__proto__\<close> and none has had its
  prototype replaced.
\<close>

fun proto_free :: "json \<Rightarrow> bool" where
  "proto_free (JArr items) = (\<forall>v \<in> set items. proto_free v)"
| "proto_free (JObj entries) =
     (''__proto__'' \<notin> set (map fst entries) \<and> (\<forall>e \<in> set entries. proto_free (snd e)))"
| "proto_free (JProto entries proto) = False"
| "proto_free data = True"


section \<open>The response normalizer\<close>

text \<open>
  \<^verbatim>\<open>JSON.parse\<close> belongs to the host, not to the repository: it is a parameter of every
  function that calls it. Its argument is converted to a string by the host first, so the
  parameter takes a value; \<open>None\<close> is the thrown SyntaxError.
\<close>

type_synonym json_parse = "json \<Rightarrow> json option"

lemma size_map_of:
  "map_of entries key = Some v \<Longrightarrow> size v \<le> size_list (size_prod (\<lambda>x. 0) size) entries"
  by (induction entries) (auto split: if_splits)

lemma size_entry:
  "(key, v) \<in> set entries \<Longrightarrow> size v \<le> size_list (size_prod (\<lambda>x. 0) size) entries"
  by (induction entries) auto

text \<open>
  \<^verbatim>\<open>normalizeData\<close> (src/index.ts, lines 515 to 542). An object with a replaced
  prototype is an object to it like any other: it reads the own properties only.
\<close>

function (sequential) normalizeData :: "json \<Rightarrow> json" where
  "normalizeData (JArr items) = JArr (map normalizeData items)"
| "normalizeData (JObj entries) =
     (let keys = map fst entries in
      if length keys = 1 \<and> keys ! 0 = '''' then
        (case map_of entries '''' of
           None \<Rightarrow> JUndefined
         | Some v \<Rightarrow> if \<not> typeof_object v then v else normalizeData v)
      else
        built (fold (\<lambda>(key, v) normalized. assign normalized key (normalizeData v))
                 entries ([], None)))"
| "normalizeData (JProto entries proto) =
     (let keys = map fst entries in
      if length keys = 1 \<and> keys ! 0 = '''' then
        (case map_of entries '''' of
           None \<Rightarrow> JUndefined
         | Some v \<Rightarrow> if \<not> typeof_object v then v else normalizeData v)
      else
        built (fold (\<lambda>(key, v) normalized. assign normalized key (normalizeData v))
                 entries ([], None)))"
| "normalizeData data = data"
  by pat_completeness auto
termination
  by (relation "measure size")
    (auto simp: less_Suc_eq_le size_list_estimation' intro: size_map_of size_entry trans_le_add1)

text \<open>The value of \<^verbatim>\<open>result?.content?.[0]?.text\<close>.\<close>

definition content0_text :: "json \<Rightarrow> json" where
  "content0_text result = opt_prop (opt_index0 (opt_prop result ''content'')) ''text''"

text \<open>
  \<^verbatim>\<open>normalizeResponse\<close> (lines 498 to 510). Inside the \<^verbatim>\<open>try\<close> the text is read again
  without optional chaining; it is the same value, since the guard found it truthy.
\<close>

definition normalizeResponse :: "json_parse \<Rightarrow> json \<Rightarrow> json" where
  "normalizeResponse JSON_parse result =
     (if truthy (content0_text result) then
        (case JSON_parse (content0_text result) of
           Some parsed \<Rightarrow> normalizeData parsed
         | None \<Rightarrow> result)
      else normalizeData result)"

text \<open>
  A finite excerpt of \<^verbatim>\<open>JSON.parse\<close> for the closed examples: on each argument listed
  it returns what the host returns. The examples evaluate it at listed arguments only.
\<close>

definition JSON_parse_excerpt :: json_parse where
  \<open>JSON_parse_excerpt text =
     (if text = JStr ''5'' then Some (JNum 5)
      else if text = JStr '''' then None
      else if text = JStr ''{"":5}'' then Some (JObj [('''', JNum 5)])
      else if text = JStr ''{"x":1}'' then Some (JObj [(''x'', JNum 1)])
      else if text = JStr ''{"id":1,"result":"a"}''
        then Some (JObj [(''id'', JNum 1), (''result'', JStr ''a'')])
      else if text = JStr ''{"id":2,"result":"b"}''
        then Some (JObj [(''id'', JNum 2), (''result'', JStr ''b'')])
      else if text = JStr ''{"id":3,"error":{"message":"boom"}}''
        then Some (JObj [(''id'', JNum 3), (''error'', JObj [(''message'', JStr ''boom'')])])
      else if text = JStr ''not json'' then None
      else None)\<close>


section \<open>The client\<close>

text \<open>
  An error object, by how the client builds it: \<open>Error v\<close> is \<^verbatim>\<open>new Error(v)\<close>,
  \<open>Error_stringified v\<close> is \<^verbatim>\<open>new Error(JSON.stringify(v))\<close>, and \<open>TypeError\<close> is what the
  host throws when a property of \<^verbatim>\<open>null\<close> or \<^verbatim>\<open>undefined\<close> is read.
\<close>

datatype js_error = Error json | Error_stringified json | TypeError

datatype outcome = Resolved json | Rejected js_error

text \<open>How far \<^verbatim>\<open>initialize\<close> has come: it awaits the promise of its request.\<close>

datatype handshake = NotStarted | Awaiting nat | Completed | Failed

text \<open>
  The fields of \<^verbatim>\<open>MCPClient\<close> and the part of the host that its callbacks touch.
  A promise is the number it was created under; the entry of \<^verbatim>\<open>pendingRequests\<close> holds
  the \<^verbatim>\<open>resolve\<close> and \<^verbatim>\<open>reject\<close> of one promise, so the table maps an id to a promise.
  \<open>settled\<close> lists every call of a \<^verbatim>\<open>resolve\<close> or \<^verbatim>\<open>reject\<close> in the order made; a
  promise takes the outcome of the first call made on it. \<open>stdin\<close> lists the objects
  serialised and written to the worker, \<open>timers\<close> the armed \<^verbatim>\<open>setTimeout\<close> callbacks with
  the \<^verbatim>\<open>id\<close>, \<^verbatim>\<open>method\<close> and promise each has captured.
\<close>

record client =
  process :: "(string \<times> string list \<times> (string \<times> string) list) option"
  requestId :: nat
  pendingRequests :: "rat \<rightharpoonup> nat"
  buffer :: string
  listening :: bool
  stdin :: "json list"
  timers :: "(rat \<times> string \<times> nat) list"
  promises :: nat
  settled :: "(nat \<times> outcome) list"
  handshake :: handshake

definition MCPClient_new :: client where
  "MCPClient_new =
     \<lparr>process = None, requestId = 0, pendingRequests = Map.empty, buffer = [],
      listening = False, stdin = [], timers = [], promises = 0, settled = [],
      handshake = NotStarted\<rparr>"

text \<open>
  \<^verbatim>\<open>request\<close> (lines 456 to 476). The executor runs at once: it takes the next id, stores
  the entry, writes the frame and arms the timer. With no process, reading
  \<^verbatim>\<open>this.process.stdin\<close> throws after the entry is stored, and a throwing executor rejects
  its promise. Returns the promise.
\<close>

definition request :: "string \<Rightarrow> json \<Rightarrow> client \<Rightarrow> nat \<times> client" where
  "request method params s =
     (let promise = promises s;
          ident = Suc (requestId s);
          req = JObj [(''jsonrpc'', JStr ''2.0''), (''id'', JNum (of_nat ident)),
                      (''method'', JStr method), (''params'', params)];
          s1 = s\<lparr>promises := Suc promise, requestId := ident,
                  pendingRequests := (pendingRequests s)(of_nat ident \<mapsto> promise)\<rparr>
      in if process s = None
         then (promise, s1\<lparr>settled := settled s1 @ [(promise, Rejected TypeError)]\<rparr>)
         else (promise, s1\<lparr>stdin := stdin s1 @ [req],
                           timers := timers s1 @ [(of_nat ident, method, promise)]\<rparr>))"

text \<open>The callback armed by \<^verbatim>\<open>setTimeout\<close> in \<^verbatim>\<open>request\<close> (lines 469 to 474).\<close>

definition timeout_fires :: "rat \<times> string \<times> nat \<Rightarrow> client \<Rightarrow> client" where
  "timeout_fires t s =
     (case t of (ident, method, promise) \<Rightarrow>
        if pendingRequests s ident \<noteq> None
        then s\<lparr>pendingRequests := (pendingRequests s)(ident := None),
               settled := settled s @
                 [(promise, Rejected (Error (JStr (''Request timeout: '' @ method))))]\<rparr>
        else s)"

text \<open>\<^verbatim>\<open>notify\<close> (lines 478 to 485); with no process it throws and writes nothing.\<close>

definition notify :: "string \<Rightarrow> json \<Rightarrow> client \<Rightarrow> client" where
  "notify method params s =
     (if process s = None then s
      else s\<lparr>stdin := stdin s @
        [JObj [(''jsonrpc'', JStr ''2.0''), (''method'', JStr method), (''params'', params)]]\<rparr>)"

text \<open>
  \<^verbatim>\<open>pendingRequests.get(v)\<close> and \<^verbatim>\<open>pendingRequests.delete(v)\<close> for a value read from a
  response: the keys of the table are numbers, and a Map never equates a number with a
  value of another type.
\<close>

definition Map_get :: "(rat \<rightharpoonup> nat) \<Rightarrow> json \<Rightarrow> nat option" where
  "Map_get table v = (case v of JNum n \<Rightarrow> table n | _ \<Rightarrow> None)"

definition Map_delete :: "(rat \<rightharpoonup> nat) \<Rightarrow> json \<Rightarrow> (rat \<rightharpoonup> nat)" where
  "Map_delete table v = (case v of JNum n \<Rightarrow> table(n := None) | _ \<Rightarrow> table)"

text \<open>\<^verbatim>\<open>new Error(error.message || JSON.stringify(error))\<close> for a truthy \<^verbatim>\<open>error\<close>.\<close>

definition error_of :: "json \<Rightarrow> js_error" where
  "error_of err =
     (let message = opt_prop err ''message''
      in if truthy message then Error message else Error_stringified err)"

text \<open>
  \<^verbatim>\<open>line.trim()\<close>, with the white space of the language that lies in the ASCII range.
\<close>

definition is_space :: "char \<Rightarrow> bool" where
  "is_space c = (c \<in> set [CHR 0x09, CHR 0x0A, CHR 0x0B, CHR 0x0C, CHR 0x0D, CHR 0x20])"

definition trim :: "string \<Rightarrow> string" where
  "trim line = rev (dropWhile is_space (rev (dropWhile is_space line)))"

text \<open>
  The body of the loop of \<^verbatim>\<open>processBuffer\<close> (lines 421 to 440) for one line. A
  SyntaxError of \<^verbatim>\<open>JSON.parse\<close> and a TypeError of \<^verbatim>\<open>response.id\<close> are caught and the
  line is dropped.
\<close>

definition handle_line :: "json_parse \<Rightarrow> client \<Rightarrow> string \<Rightarrow> client" where
  "handle_line JSON_parse s line =
     (if trim line = [] then s
      else case JSON_parse (JStr line) of
        None \<Rightarrow> s
      | Some response \<Rightarrow>
          (case get_prop response ''id'' of
             None \<Rightarrow> s
           | Some rid \<Rightarrow>
               (case Map_get (pendingRequests s) rid of
                  None \<Rightarrow> s
                | Some pending \<Rightarrow>
                    let s1 = s\<lparr>pendingRequests := Map_delete (pendingRequests s) rid\<rparr>
                    in if truthy (opt_prop response ''error'')
                       then s1\<lparr>settled := settled s1 @
                              [(pending, Rejected (error_of (opt_prop response ''error'')))]\<rparr>
                       else s1\<lparr>settled := settled s1 @
                              [(pending, Resolved (opt_prop response ''result''))]\<rparr>)))"

text \<open>\<^verbatim>\<open>buffer.split('\n')\<close>: the segments between newlines, never an empty list.\<close>

fun split_nl :: "string \<Rightarrow> string list" where
  "split_nl [] = ['''']"
| "split_nl (c # cs) =
     (if c = CHR 0x0A then [] # split_nl cs
      else (c # hd (split_nl cs)) # tl (split_nl cs))"

text \<open>\<^verbatim>\<open>lines.pop()\<close>: the last element, if any, and the array without it.\<close>

definition pop :: "'a list \<Rightarrow> 'a option \<times> 'a list" where
  "pop xs = (if xs = [] then (None, []) else (Some (last xs), butlast xs))"

text \<open>\<^verbatim>\<open>lines.pop() || ''\<close>.\<close>

definition or_empty :: "string option \<Rightarrow> string" where
  "or_empty popped = (case popped of None \<Rightarrow> [] | Some l \<Rightarrow> if l \<noteq> [] then l else [])"

text \<open>\<^verbatim>\<open>processBuffer\<close> (lines 418 to 441).\<close>

definition processBuffer :: "json_parse \<Rightarrow> client \<Rightarrow> client" where
  "processBuffer JSON_parse s =
     (case pop (split_nl (buffer s)) of (popped, lines) \<Rightarrow>
        foldl (handle_line JSON_parse) (s\<lparr>buffer := or_empty popped\<rparr>) lines)"

text \<open>The listener on the worker's standard output (lines 402 to 405).\<close>

definition on_data :: "json_parse \<Rightarrow> string \<Rightarrow> client \<Rightarrow> client" where
  "on_data JSON_parse chunk s = processBuffer JSON_parse (s\<lparr>buffer := buffer s @ chunk\<rparr>)"

text \<open>
  The frame reader seen by itself: the lines that the loop of \<^verbatim>\<open>processBuffer\<close> runs
  over while a sequence of chunks arrives, and the accumulator left at the end.
\<close>

fun feed :: "string \<Rightarrow> string list \<Rightarrow> string list \<times> string" where
  "feed acc [] = ([], acc)"
| "feed acc (chunk # chunks) =
     (case pop (split_nl (acc @ chunk)) of (popped, lines) \<Rightarrow>
        (case feed (or_empty popped) chunks of (later, final) \<Rightarrow> (lines @ later, final)))"

text \<open>
  \<^verbatim>\<open>initialize\<close> (lines 443 to 454) up to its \<^verbatim>\<open>await\<close>, and \<^verbatim>\<open>start\<close> (lines 396 to
  416) up to the same point: the process is spawned, the listener attached, the
  \<^verbatim>\<open>initialize\<close> request sent.
\<close>

definition initialize_params :: json where
  "initialize_params =
     JObj [(''protocolVersion'', JStr ''2024-11-05''), (''capabilities'', JObj []),
           (''clientInfo'', JObj [(''name'', JStr ''mcp-code-wrapper-executor''),
                                  (''version'', JStr ''1.0.0'')])]"

definition initialize :: "client \<Rightarrow> client" where
  "initialize s =
     (case request ''initialize'' initialize_params s of
        (promise, s1) \<Rightarrow> s1\<lparr>handshake := Awaiting promise\<rparr>)"

definition start ::
    "string \<Rightarrow> string list \<Rightarrow> (string \<times> string) list \<Rightarrow> client \<Rightarrow> client" where
  "start command args env s =
     initialize (s\<lparr>process := Some (command, args, env), listening := True\<rparr>)"

text \<open>
  The rest of \<^verbatim>\<open>initialize\<close>, run by the host once the awaited promise is settled: the
  notification is sent if the request was resolved; a rejection is thrown on to the
  caller of \<^verbatim>\<open>start\<close>.
\<close>

definition initialize_resume :: "client \<Rightarrow> client" where
  "initialize_resume s =
     (case handshake s of
        Awaiting promise \<Rightarrow>
          (case map_of (settled s) promise of
             None \<Rightarrow> s
           | Some (Resolved r) \<Rightarrow>
               if process s = None then s\<lparr>handshake := Failed\<rparr>
               else (notify ''notifications/initialized'' (JObj []) s)\<lparr>handshake := Completed\<rparr>
           | Some (Rejected e) \<Rightarrow> s\<lparr>handshake := Failed\<rparr>)
      | _ \<Rightarrow> s)"

text \<open>
  \<^verbatim>\<open>callTool\<close> (lines 487 to 493): the request it sends, and what its own promise
  takes from the outcome of that request.
\<close>

definition callTool :: "string \<Rightarrow> json \<Rightarrow> client \<Rightarrow> nat \<times> client" where
  "callTool name args s =
     request ''tools/call''
       (JObj [(''name'', JStr name),
              (''arguments'', if args = JUndefined then JObj [] else args)]) s"

fun callTool_result :: "json_parse \<Rightarrow> outcome \<Rightarrow> outcome" where
  "callTool_result JSON_parse (Resolved result) = Resolved (normalizeResponse JSON_parse result)"
| "callTool_result JSON_parse (Rejected e) = Rejected e"

text \<open>
  \<^verbatim>\<open>stop\<close> (lines 544 to 575), as far as the client's own state goes: the table is
  cleared, the listeners removed, and once the worker has exited the process handle is
  dropped. The signals sent to the worker are outside the model.
\<close>

definition stop :: "client \<Rightarrow> client" where
  "stop s =
     (if process s \<noteq> None
      then s\<lparr>pendingRequests := Map.empty, listening := False, process := None\<rparr>
      else s)"

text \<open>
  The states of a started session. The host runs one callback at a time: a caller sends
  a request, a chunk arrives on the worker's output, an armed timer fires (once), or
  \<^verbatim>\<open>initialize\<close> resumes.
\<close>

inductive reachable :: "json_parse \<Rightarrow> client \<Rightarrow> bool" for JSON_parse :: json_parse where
  started: "reachable JSON_parse (start command args env MCPClient_new)"
| sent: "reachable JSON_parse s \<Longrightarrow> reachable JSON_parse (snd (request method params s))"
| received: "reachable JSON_parse s \<Longrightarrow> listening s \<Longrightarrow>
     reachable JSON_parse (on_data JSON_parse chunk s)"
| timed_out: "reachable JSON_parse s \<Longrightarrow> t \<in> set (timers s) \<Longrightarrow>
     reachable JSON_parse (timeout_fires t (s\<lparr>timers := remove1 t (timers s)\<rparr>))"
| resumed: "reachable JSON_parse s \<Longrightarrow> reachable JSON_parse (initialize_resume s)"



text \<open>The calls of \<^verbatim>\<open>resolve\<close> and \<^verbatim>\<open>reject\<close> made on one promise.\<close>

definition settlements :: "nat \<Rightarrow> client \<Rightarrow> (nat \<times> outcome) list" where
  "settlements promise s = filter (\<lambda>c. fst c = promise) (settled s)"

text \<open>
  What the loop body reads from a line: the response it decodes, unless the line is
  blank or does not decode, and the outcome that response gives to the promise found
  under its id.
\<close>

definition frame_response :: "json_parse \<Rightarrow> string \<Rightarrow> json option" where
  "frame_response JSON_parse line = (if trim line = [] then None else JSON_parse (JStr line))"

definition frame_id :: "json_parse \<Rightarrow> string \<Rightarrow> json option" where
  "frame_id JSON_parse line =
     (case frame_response JSON_parse line of
        None \<Rightarrow> None
      | Some response \<Rightarrow> get_prop response ''id'')"

definition response_outcome :: "json \<Rightarrow> outcome" where
  "response_outcome response =
     (if truthy (opt_prop response ''error'')
      then Rejected (error_of (opt_prop response ''error''))
      else Resolved (opt_prop response ''result''))"

text \<open>
  The invariant of a started session. Ids and promises are handed out together, so the
  entry under id \<open>p + 1\<close> belongs to promise \<open>p\<close>; a promise with an entry has not been
  settled; a promise whose timer is armed is either still in the table or settled.
\<close>

definition client_inv :: "client \<Rightarrow> bool" where
  "client_inv s \<longleftrightarrow>
     process s \<noteq> None \<and>
     promises s = requestId s \<and>
     (\<forall>i p. pendingRequests s i = Some p \<longrightarrow>
        i = of_nat (Suc p) \<and> p < promises s \<and> p \<notin> fst ` set (settled s)) \<and>
     (\<forall>t \<in> set (timers s).
        fst t = of_nat (Suc (snd (snd t))) \<and> snd (snd t) < promises s \<and>
        (pendingRequests s (fst t) = Some (snd (snd t)) \<or>
         snd (snd t) \<in> fst ` set (settled s))) \<and>
     distinct (map fst (settled s)) \<and>
     (\<forall>c \<in> set (settled s). fst c < promises s)"

text \<open>
  The invariant after \<^verbatim>\<open>stop\<close>: no process, no listener, and no armed timer has an
  entry in the table.
\<close>

definition stopped_inv :: "client \<Rightarrow> bool" where
  "stopped_inv s \<longleftrightarrow>
     process s = None \<and> \<not> listening s \<and>
     promises s = requestId s \<and>
     (\<forall>t \<in> set (timers s).
        fst t = of_nat (Suc (snd (snd t))) \<and> snd (snd t) < promises s \<and>
        pendingRequests s (fst t) = None)"


section \<open>Properties of the normalizer\<close>

subsection \<open>Rebuilding an object by assignment\<close>

lemma set_own_fresh: "key \<notin> fst ` set acc \<Longrightarrow> set_own acc key v = acc @ [(key, v)]"
  by (induction acc key v rule: set_own.induct) auto

lemma fold_assign_distinct:
  "distinct (map fst entries) \<Longrightarrow> ''__proto__'' \<notin> fst ` set entries \<Longrightarrow>
   fst ` set entries \<inter> fst ` set acc = {} \<Longrightarrow>
   fold (\<lambda>(key, v) normalized. assign normalized key (f v)) entries (acc, proto) =
   (acc @ map (\<lambda>(key, v). (key, f v)) entries, proto)"
proof (induction entries arbitrary: acc)
  case Nil
  then show ?case by simp
next
  case (Cons e entries)
  obtain k v where e: "e = (k, v)" by (cases e)
  from Cons.prems have fresh: "k \<notin> fst ` set acc" and k: "k \<noteq> ''__proto__''"
    by (auto simp: e)
  have "fst ` set entries \<inter> fst ` set (acc @ [(k, f v)]) = {}"
    using Cons.prems by (auto simp: e rev_image_eqI)
  moreover have "''__proto__'' \<notin> fst ` set entries" using Cons.prems(2) by simp
  ultimately show ?case
    using Cons.IH[of "acc @ [(k, f v)]"] Cons.prems(1) k
    by (simp add: e set_own_fresh[OF fresh])
qed

lemma rebuild_distinct:
  "distinct (map fst entries) \<Longrightarrow> ''__proto__'' \<notin> set (map fst entries) \<Longrightarrow>
   built (fold (\<lambda>(key, v) normalized. assign normalized key (f v)) entries ([], None)) =
   JObj (map (\<lambda>(key, v). (key, f v)) entries)"
  using fold_assign_distinct[of entries "[]" f None] by simp

lemma normalizeData_single:
  "normalizeData (JObj [('''', v)]) = (if typeof_object v then normalizeData v else v)"
  by simp

lemma normalizeData_rebuild:
  assumes "distinct (map fst entries)" "''__proto__'' \<notin> set (map fst entries)"
    "map fst entries \<noteq> ['''']"
  shows "normalizeData (JObj entries) = JObj (map (\<lambda>(key, v). (key, normalizeData v)) entries)"
proof -
  have c: "(length (map fst entries) = 1 \<and> map fst entries ! 0 = '''') = False"
    using assms(3) by (cases entries) auto
  show ?thesis
    by (simp only: normalizeData.simps Let_def c if_False rebuild_distinct[OF assms(1,2)])
qed

lemma normalizeData_primitive: "\<not> typeof_object v \<or> v = JNull \<Longrightarrow> normalizeData v = v"
  by (cases v) auto

lemma normalizeData_idem:
  "wf_json x \<Longrightarrow> proto_free x \<Longrightarrow> normalizeData (normalizeData x) = normalizeData x"
proof (induction x rule: normalizeData.induct)
  case (1 items)
  then show ?case by simp
next
  case (2 entries)
  show ?case
  proof (cases "map fst entries = ['''']")
    case True
    then obtain v where ent: "entries = [('''', v)]" by (cases entries) auto
    show ?thesis
    proof (cases "typeof_object v")
      case True
      with 2(1)[of "map fst entries" v] 2(3,4) show ?thesis by (simp add: ent)
    next
      case False
      then show ?thesis by (cases v) (simp_all add: ent)
    qed
  next
    case False
    from 2(3) have d: "distinct (map fst entries)" by simp
    from 2(4) have np: "''__proto__'' \<notin> set (map fst entries)" by simp
    have nd: "normalizeData (JObj entries) = JObj (map (\<lambda>(key, v). (key, normalizeData v)) entries)"
      by (rule normalizeData_rebuild[OF d np False])
    let ?entries' = "map (\<lambda>(key, v). (key, normalizeData v)) entries"
    have keys: "map fst ?entries' = map fst entries" by (induction entries) auto
    have nd': "normalizeData (JObj ?entries') = JObj (map (\<lambda>(key, v). (key, normalizeData v)) ?entries')"
      by (rule normalizeData_rebuild) (simp_all only: keys d np False not_False_eq_True)
    have "\<not> (length (map fst entries) = 1 \<and> map fst entries ! 0 = '''')"
      using False by (cases entries) auto
    then have ih: "\<And>k v. (k, v) \<in> set entries \<Longrightarrow> normalizeData (normalizeData v) = normalizeData v"
      using 2(2)[OF refl] 2(3,4) by fastforce
    have "map (\<lambda>(key, v). (key, normalizeData v)) ?entries' = ?entries'"
      using ih by (induction entries) auto
    with nd nd' show ?thesis by simp
  qed
qed simp_all

subsection \<open>The empty-name envelope\<close>

text \<open>
  What \<^verbatim>\<open>normalizeData\<close> does to an object and to a primitive. An object whose only
  property has the empty name is unwrapped to the value of that property: the value is
  normalized again if it is an object, an array or \<^verbatim>\<open>null\<close>, and returned as it is
  otherwise, so \<^verbatim>\<open>{"": {"": 5}}\<close> becomes \<^verbatim>\<open>5\<close> and \<^verbatim>\<open>{"": [1,2]}\<close> becomes
  \<^verbatim>\<open>[1,2]\<close>. An object with any other set of property names, none of them
  \<^verbatim>\<open>__proto__\<close>, is rebuilt with the same names, each value normalized, so
  \<^verbatim>\<open>{"a": 1, "b": 2}\<close> is unchanged. A primitive is returned unchanged.
\<close>

lemma normalizeData_envelope:
  \<open>normalizeData (JObj [('''', v)]) = (if typeof_object v then normalizeData v else v) \<and>
   normalizeResponse JSON_parse (JObj [('''', JObj [('''', JNum 5)])]) = JNum 5 \<and>
   normalizeResponse JSON_parse (JObj [('''', JArr [JNum 1, JNum 2])]) = JArr [JNum 1, JNum 2] \<and>
   (distinct (map fst entries) \<and> ''__proto__'' \<notin> set (map fst entries) \<and>
      map fst entries \<noteq> [''''] \<longrightarrow>
      normalizeData (JObj entries) = JObj (map (\<lambda>(key, v). (key, normalizeData v)) entries) \<and>
      map fst (map (\<lambda>(key, v). (key, normalizeData v)) entries) = map fst entries) \<and>
   normalizeResponse JSON_parse (JObj [(''a'', JNum 1), (''b'', JNum 2)]) =
     JObj [(''a'', JNum 1), (''b'', JNum 2)] \<and>
   (\<not> typeof_object w \<or> w = JNull \<longrightarrow> normalizeData w = w)\<close>
proof -
  have keys: "map fst (map (\<lambda>(key, v). (key, normalizeData v)) entries) = map fst entries"
    by (induction entries) auto
  have examples:
    "normalizeResponse JSON_parse (JObj [('''', JObj [('''', JNum 5)])]) = JNum 5"
    "normalizeResponse JSON_parse (JObj [('''', JArr [JNum 1, JNum 2])]) = JArr [JNum 1, JNum 2]"
    "normalizeResponse JSON_parse (JObj [(''a'', JNum 1), (''b'', JNum 2)]) =
       JObj [(''a'', JNum 1), (''b'', JNum 2)]"
    by (simp_all add: normalizeResponse_def content0_text_def opt_prop_def)
  show ?thesis
    using normalizeData_single normalizeData_rebuild normalizeData_primitive keys examples
    by blast
qed

text \<open>
  Claim C9 says that every object with a set of property names other than the single
  empty name is rebuilt with the same names. The code departs from it at the name
  \<^verbatim>\<open>__proto__\<close>, which \<^verbatim>\<open>JSON.parse\<close> makes an own property and the assignment of the
  rebuild does not: \<^verbatim>\<open>{"__proto__": 1, "a": 2}\<close> is rebuilt as \<^verbatim>\<open>{"a": 2}\<close>, by
  \<^verbatim>\<open>normalizeData\<close> and by \<^verbatim>\<open>normalizeResponse\<close>.
\<close>

theorem normalizeData_drops_proto_key:
  "normalizeData (JObj [(''__proto__'', JNum 1), (''a'', JNum 2)]) = JObj [(''a'', JNum 2)] \<and>
   normalizeResponse JSON_parse (JObj [(''__proto__'', JNum 1), (''a'', JNum 2)]) =
     JObj [(''a'', JNum 2)]"
  by (simp add: normalizeResponse_def content0_text_def opt_prop_def)

text \<open>The rebuilt object is not the object the claim describes.\<close>

theorem normalizeData_drops_proto_key_witness:
  "normalizeData (JObj [(''__proto__'', JNum 1), (''a'', JNum 2)]) \<noteq>
     JObj [(''__proto__'', JNum 1), (''a'', JNum 2)] \<and>
   normalizeResponse JSON_parse_excerpt (JObj [(''__proto__'', JNum 1), (''a'', JNum 2)]) \<noteq>
     JObj [(''__proto__'', JNum 1), (''a'', JNum 2)]"
  using normalizeData_drops_proto_key[of JSON_parse_excerpt] by simp

subsection \<open>The embedded text\<close>

text \<open>
  Claim C8 says that whenever the raw result has a single content item with a text, the
  text is decoded and a text that does not decode gives the raw result back unchanged.
  The empty text does not decode, yet it is never given to \<^verbatim>\<open>JSON.parse\<close>: the guard
  finds it falsy and the raw result is normalized instead, here from
  \<^verbatim>\<open>meta: {"": 5}\<close> to \<^verbatim>\<open>meta: 5\<close>.
\<close>

theorem normalizeResponse_empty_text:
  "JSON_parse_excerpt (JStr '''') = None \<and>
   normalizeResponse JSON_parse_excerpt
     (JObj [(''content'', JArr [JObj [(''text'', JStr '''')]]),
            (''meta'', JObj [('''', JNum 5)])]) =
   JObj [(''content'', JArr [JObj [(''text'', JStr '''')]]), (''meta'', JNum 5)] \<and>
   normalizeResponse JSON_parse_excerpt
     (JObj [(''content'', JArr [JObj [(''text'', JStr '''')]]),
            (''meta'', JObj [('''', JNum 5)])]) \<noteq>
   JObj [(''content'', JArr [JObj [(''text'', JStr '''')]]), (''meta'', JObj [('''', JNum 5)])]"
  by (simp add: normalizeResponse_def content0_text_def opt_prop_def JSON_parse_excerpt_def)

text \<open>
  Claim C8, amended. When the raw result has a single content item whose text is truthy,
  the text is given to \<^verbatim>\<open>JSON.parse\<close>: if it decodes, the result is the decoded value
  normalized by \<^verbatim>\<open>normalizeData\<close>, so the text \<^verbatim>\<open>{"x":1}\<close> gives \<^verbatim>\<open>{"x": 1}\<close> and the
  text \<^verbatim>\<open>{"":5}\<close> gives \<^verbatim>\<open>5\<close>; if it does not decode, the raw result is returned
  unchanged. When the text is falsy, nothing is decoded and the result is the raw result
  normalized by \<^verbatim>\<open>normalizeData\<close>.
\<close>

theorem normalizeResponse_text:
  assumes "map_of entries ''content'' = Some (JArr [item])"
    and "get_prop item ''text'' = Some t"
  shows \<open>(truthy t \<longrightarrow>
            (JSON_parse t = Some parsed \<longrightarrow>
               normalizeResponse JSON_parse (JObj entries) = normalizeData parsed) \<and>
            (JSON_parse t = None \<longrightarrow>
               normalizeResponse JSON_parse (JObj entries) = JObj entries)) \<and>
         (\<not> truthy t \<longrightarrow>
            normalizeResponse JSON_parse (JObj entries) = normalizeData (JObj entries)) \<and>
         (JSON_parse (JStr ''{"x":1}'') = Some (JObj [(''x'', JNum 1)]) \<longrightarrow>
            normalizeResponse JSON_parse
              (JObj [(''content'', JArr [JObj [(''text'', JStr ''{"x":1}'')]])]) =
            JObj [(''x'', JNum 1)]) \<and>
         (JSON_parse (JStr ''{"":5}'') = Some (JObj [('''', JNum 5)]) \<longrightarrow>
            normalizeResponse JSON_parse
              (JObj [(''content'', JArr [JObj [(''text'', JStr ''{"":5}'')]])]) =
            JNum 5)\<close>
proof -
  have "content0_text (JObj entries) = t"
    using assms(1,2) by (simp add: content0_text_def opt_prop_def)
  then show ?thesis
    by (simp add: normalizeResponse_def content0_text_def opt_prop_def)
qed

text \<open>
  The theorem at a text that decodes to a value normalization changes, at one that
  decodes to a value it leaves alone, at one that does not decode and at the empty text.
\<close>

theorem normalizeResponse_text_witness:
  \<open>normalizeResponse JSON_parse_excerpt
      (JObj [(''content'', JArr [JObj [(''text'', JStr ''{"":5}'')]])]) = JNum 5 \<and>
   normalizeResponse JSON_parse_excerpt
      (JObj [(''content'', JArr [JObj [(''text'', JStr ''{"x":1}'')]])]) =
    JObj [(''x'', JNum 1)] \<and>
   normalizeResponse JSON_parse_excerpt
      (JObj [(''content'', JArr [JObj [(''text'', JStr ''not json'')]])]) =
    JObj [(''content'', JArr [JObj [(''text'', JStr ''not json'')]])] \<and>
   normalizeResponse JSON_parse_excerpt
      (JObj [(''content'', JArr [JObj [(''text'', JStr '''')]]),
             (''meta'', JObj [('''', JNum 5)])]) =
    JObj [(''content'', JArr [JObj [(''text'', JStr '''')]]), (''meta'', JNum 5)]\<close>
proof -
  have n: \<open>normalizeData (JObj [('''', JNum 5)]) = JNum 5\<close>
    \<open>normalizeData (JObj [(''x'', JNum 1)]) = JObj [(''x'', JNum 1)]\<close>
    \<open>normalizeData (JObj [(''content'', JArr [JObj [(''text'', JStr '''')]]),
             (''meta'', JObj [('''', JNum 5)])]) =
      JObj [(''content'', JArr [JObj [(''text'', JStr '''')]]), (''meta'', JNum 5)]\<close>
    by simp_all
  have a: \<open>normalizeResponse JSON_parse_excerpt
      (JObj [(''content'', JArr [JObj [(''text'', JStr ''{"":5}'')]])]) = JNum 5\<close>
    using normalizeResponse_text
      [of \<open>[(''content'', JArr [JObj [(''text'', JStr ''{"":5}'')]])]\<close>
          \<open>JObj [(''text'', JStr ''{"":5}'')]\<close> \<open>JStr ''{"":5}''\<close>
          JSON_parse_excerpt \<open>JObj [('''', JNum 5)]\<close>] n(1)
    by (simp add: JSON_parse_excerpt_def)
  have b: \<open>normalizeResponse JSON_parse_excerpt
      (JObj [(''content'', JArr [JObj [(''text'', JStr ''{"x":1}'')]])]) =
    JObj [(''x'', JNum 1)]\<close>
    using normalizeResponse_text
      [of \<open>[(''content'', JArr [JObj [(''text'', JStr ''{"x":1}'')]])]\<close>
          \<open>JObj [(''text'', JStr ''{"x":1}'')]\<close> \<open>JStr ''{"x":1}''\<close>
          JSON_parse_excerpt \<open>JObj [(''x'', JNum 1)]\<close>] n(2)
    by (simp add: JSON_parse_excerpt_def)
  have c: \<open>normalizeResponse JSON_parse_excerpt
      (JObj [(''content'', JArr [JObj [(''text'', JStr ''not json'')]])]) =
    JObj [(''content'', JArr [JObj [(''text'', JStr ''not json'')]])]\<close>
    using normalizeResponse_text
      [of \<open>[(''content'', JArr [JObj [(''text'', JStr ''not json'')]])]\<close>
          \<open>JObj [(''text'', JStr ''not json'')]\<close> \<open>JStr ''not json''\<close>
          JSON_parse_excerpt]
    by (simp add: JSON_parse_excerpt_def)
  have d: \<open>normalizeResponse JSON_parse_excerpt
      (JObj [(''content'', JArr [JObj [(''text'', JStr '''')]]),
             (''meta'', JObj [('''', JNum 5)])]) =
    JObj [(''content'', JArr [JObj [(''text'', JStr '''')]]), (''meta'', JNum 5)]\<close>
    using normalizeResponse_text
      [of \<open>[(''content'', JArr [JObj [(''text'', JStr '''')]]),
             (''meta'', JObj [('''', JNum 5)])]\<close>
          \<open>JObj [(''text'', JStr '''')]\<close> \<open>JStr ''''\<close> JSON_parse_excerpt] n(3)
    by simp
  from a b c d show ?thesis by blast
qed



subsection \<open>Idempotence\<close>

text \<open>
  Claim C3 says that normalizing twice is normalizing once. It fails where the first
  pass uncovers a content item with a text that decodes: the envelope
  \<^verbatim>\<open>{"": {content: [{text: "5"}]}}\<close> is unwrapped by the first pass and decoded to
  \<^verbatim>\<open>5\<close> by the second.
\<close>

theorem normalizeResponse_not_idempotent:
  "normalizeResponse JSON_parse_excerpt
     (normalizeResponse JSON_parse_excerpt
        (JObj [('''', JObj [(''content'', JArr [JObj [(''text'', JStr ''5'')]])])])) \<noteq>
   normalizeResponse JSON_parse_excerpt
     (JObj [('''', JObj [(''content'', JArr [JObj [(''text'', JStr ''5'')]])])])"
  by (simp add: normalizeResponse_def content0_text_def opt_prop_def JSON_parse_excerpt_def)

text \<open>
  A property named \<^verbatim>\<open>__proto__\<close> is a second way for a second pass to differ: the
  first pass drops it, and what is left can be an envelope.
\<close>

lemma normalizeData_proto_not_idempotent:
  "normalizeData (JObj [(''__proto__'', JNum 5), ('''', JNum 7)]) = JObj [('''', JNum 7)] \<and>
   normalizeData (normalizeData (JObj [(''__proto__'', JNum 5), ('''', JNum 7)])) = JNum 7"
  by simp

text \<open>
  Claim C3, amended. Take a value in which no object has a property named
  \<^verbatim>\<open>__proto__\<close>, and whose text, if it exposes one that decodes, decodes to such a value
  (property names are pairwise distinct, as in every object of the language). On it the
  recursive step \<^verbatim>\<open>normalizeData\<close> is idempotent, and \<^verbatim>\<open>normalizeResponse\<close> is
  idempotent provided the normalized value exposes no truthy text that decodes.
\<close>

theorem normalize_idempotent_amended:
  assumes "wf_json x" and "proto_free x"
    and "\<And>parsed. JSON_parse (content0_text x) = Some parsed \<Longrightarrow>
           wf_json parsed \<and> proto_free parsed"
  shows "normalizeData (normalizeData x) = normalizeData x \<and>
    ((truthy (content0_text (normalizeResponse JSON_parse x)) \<longrightarrow>
        JSON_parse (content0_text (normalizeResponse JSON_parse x)) = None) \<longrightarrow>
     normalizeResponse JSON_parse (normalizeResponse JSON_parse x) =
       normalizeResponse JSON_parse x)"
proof (intro conjI impI)
  show "normalizeData (normalizeData x) = normalizeData x"
    using assms(1,2) by (rule normalizeData_idem)
next
  let ?y = "normalizeResponse JSON_parse x"
  assume quiet: "truthy (content0_text ?y) \<longrightarrow> JSON_parse (content0_text ?y) = None"
  have fixed: "normalizeData ?y = ?y \<or> (truthy (content0_text ?y) \<and> JSON_parse (content0_text ?y) = None)"
  proof (cases "truthy (content0_text x)")
    case True
    show ?thesis
    proof (cases "JSON_parse (content0_text x)")
      case None
      with True show ?thesis by (simp add: normalizeResponse_def)
    next
      case (Some parsed)
      with True assms(3) show ?thesis
        by (simp add: normalizeResponse_def normalizeData_idem)
    qed
  next
    case False
    with assms(1,2) show ?thesis by (simp add: normalizeResponse_def normalizeData_idem)
  qed
  show "normalizeResponse JSON_parse ?y = ?y"
  proof (cases "truthy (content0_text ?y)")
    case True
    with quiet have "JSON_parse (content0_text ?y) = None" by simp
    with True show ?thesis by (simp add: normalizeResponse_def[of JSON_parse ?y])
  next
    case False
    with fixed have "normalizeData ?y = ?y" by simp
    with False show ?thesis by (simp add: normalizeResponse_def[of JSON_parse ?y])
  qed
qed

text \<open>The theorem at the result with the text \<^verbatim>\<open>{"x":1}\<close>.\<close>

theorem normalize_idempotent_amended_witness:
  \<open>wf_json (JObj [(''content'', JArr [JObj [(''text'', JStr ''{"x":1}'')]])]) \<and>
   proto_free (JObj [(''content'', JArr [JObj [(''text'', JStr ''{"x":1}'')]])]) \<and>
   normalizeResponse JSON_parse_excerpt
     (normalizeResponse JSON_parse_excerpt
        (JObj [(''content'', JArr [JObj [(''text'', JStr ''{"x":1}'')]])])) =
   normalizeResponse JSON_parse_excerpt
     (JObj [(''content'', JArr [JObj [(''text'', JStr ''{"x":1}'')]])]) \<and>
   normalizeResponse JSON_parse_excerpt
     (JObj [(''content'', JArr [JObj [(''text'', JStr ''{"x":1}'')]])]) = JObj [(''x'', JNum 1)]\<close>
proof -
  let ?x = \<open>JObj [(''content'', JArr [JObj [(''text'', JStr ''{"x":1}'')]])]\<close>
  have wf: "wf_json ?x" and pf: "proto_free ?x" by simp_all
  have ctext: \<open>content0_text ?x = JStr ''{"x":1}''\<close>
    by (simp add: content0_text_def opt_prop_def)
  have parsed: "\<And>parsed. JSON_parse_excerpt (content0_text ?x) = Some parsed \<Longrightarrow>
      wf_json parsed \<and> proto_free parsed"
    by (auto simp: ctext JSON_parse_excerpt_def)
  have val: \<open>normalizeResponse JSON_parse_excerpt ?x = JObj [(''x'', JNum 1)]\<close>
    by (simp add: normalizeResponse_def ctext JSON_parse_excerpt_def)
  have quiet: "truthy (content0_text (normalizeResponse JSON_parse_excerpt ?x)) \<longrightarrow>
     JSON_parse_excerpt (content0_text (normalizeResponse JSON_parse_excerpt ?x)) = None"
    by (simp add: val content0_text_def opt_prop_def)
  from normalize_idempotent_amended[of ?x JSON_parse_excerpt, OF wf pf parsed] quiet
  have "normalizeResponse JSON_parse_excerpt (normalizeResponse JSON_parse_excerpt ?x) =
        normalizeResponse JSON_parse_excerpt ?x" by blast
  with wf pf val show ?thesis by simp
qed


section \<open>Properties of the client\<close>

subsection \<open>One line of the worker's output\<close>

lemma handle_line_eq:
  "handle_line P s line =
     (case frame_id P line of
        None \<Rightarrow> s
      | Some rid \<Rightarrow>
          (case Map_get (pendingRequests s) rid of
             None \<Rightarrow> s
           | Some p \<Rightarrow>
               s\<lparr>pendingRequests := Map_delete (pendingRequests s) rid,
                 settled := settled s @ [(p, response_outcome (the (frame_response P line)))]\<rparr>))"
proof (cases "frame_response P line")
  case None
  then show ?thesis
    by (simp add: handle_line_def frame_id_def frame_response_def split: if_splits)
next
  case (Some response)
  then have r: "trim line \<noteq> []" "P (JStr line) = Some response"
    by (simp_all add: frame_response_def split: if_splits)
  show ?thesis
  proof (cases "get_prop response ''id''")
    case None
    with Some r show ?thesis by (simp add: handle_line_def frame_id_def)
  next
    case (Some rid)
    show ?thesis
    proof (cases "Map_get (pendingRequests s) rid")
      case None
      with Some r \<open>frame_response P line = Some response\<close> show ?thesis
        by (simp add: handle_line_def frame_id_def)
    next
      case (Some p)
      with \<open>get_prop response ''id'' = Some rid\<close> r \<open>frame_response P line = Some response\<close>
      show ?thesis
        by (simp add: handle_line_def frame_id_def response_outcome_def Let_def)
    qed
  qed
qed

lemma Map_get_Some: "Map_get table v = Some p \<longleftrightarrow> (\<exists>n. v = JNum n \<and> table n = Some p)"
  by (cases v) (auto simp: Map_get_def)

lemma handle_line_miss:
  "frame_id P line = Some rid \<Longrightarrow> Map_get (pendingRequests s) rid = None \<Longrightarrow>
   handle_line P s line = s"
  by (simp add: handle_line_eq)

lemma handle_line_hit:
  "frame_id P line = Some (JNum i) \<Longrightarrow> pendingRequests s i = Some p \<Longrightarrow>
   handle_line P s line =
     s\<lparr>pendingRequests := (pendingRequests s)(i := None),
       settled := settled s @ [(p, response_outcome (the (frame_response P line)))]\<rparr>"
  by (simp add: handle_line_eq Map_get_def Map_delete_def)


lemma handle_line_buffer [simp]: "buffer (handle_line P s line) = buffer s"
  by (simp add: handle_line_eq split: option.split)

lemma handle_line_buffer_update:
  "handle_line P (s\<lparr>buffer := b\<rparr>) line = (handle_line P s line)\<lparr>buffer := b\<rparr>"
  by (simp add: handle_line_eq split: option.split)

subsection \<open>The invariant\<close>

lemma client_invI:
  assumes "process s \<noteq> None" and "promises s = requestId s"
    and "\<And>i p. pendingRequests s i = Some p \<Longrightarrow>
           i = of_nat (Suc p) \<and> p < promises s \<and> p \<notin> fst ` set (settled s)"
    and "\<And>i m p. (i, m, p) \<in> set (timers s) \<Longrightarrow>
           i = of_nat (Suc p) \<and> p < promises s \<and>
           (pendingRequests s i = Some p \<or> p \<in> fst ` set (settled s))"
    and "distinct (map fst (settled s))"
    and "\<And>p r. (p, r) \<in> set (settled s) \<Longrightarrow> p < promises s"
  shows "client_inv s"
proof -
  have "fst t = of_nat (Suc (snd (snd t))) \<and> snd (snd t) < promises s \<and>
        (pendingRequests s (fst t) = Some (snd (snd t)) \<or>
         snd (snd t) \<in> fst ` set (settled s))" if "t \<in> set (timers s)" for t
  proof -
    obtain i m p where t: "t = (i, m, p)" by (cases t)
    from assms(4)[of i m p] that show ?thesis unfolding t by auto
  qed
  moreover have "fst c < promises s" if "c \<in> set (settled s)" for c
  proof -
    obtain p r where c: "c = (p, r)" by (cases c)
    from assms(6)[of p r] that show ?thesis unfolding c by auto
  qed
  ultimately show ?thesis
    unfolding client_inv_def using assms(1,2,3,5) by blast
qed

lemma client_inv_process: "client_inv s \<Longrightarrow> process s \<noteq> None"
  and client_inv_promises: "client_inv s \<Longrightarrow> promises s = requestId s"
  and client_inv_distinct: "client_inv s \<Longrightarrow> distinct (map fst (settled s))"
  by (simp_all add: client_inv_def)

lemma client_inv_pending:
  "client_inv s \<Longrightarrow> pendingRequests s i = Some p \<Longrightarrow>
   i = of_nat (Suc p) \<and> p < promises s \<and> p \<notin> fst ` set (settled s)"
  unfolding client_inv_def by blast

lemma client_inv_timer:
  "client_inv s \<Longrightarrow> (i, m, p) \<in> set (timers s) \<Longrightarrow>
   i = of_nat (Suc p) \<and> p < promises s \<and>
   (pendingRequests s i = Some p \<or> p \<in> fst ` set (settled s))"
proof -
  assume "client_inv s" and t: "(i, m, p) \<in> set (timers s)"
  then have "\<forall>t \<in> set (timers s).
        fst t = of_nat (Suc (snd (snd t))) \<and> snd (snd t) < promises s \<and>
        (pendingRequests s (fst t) = Some (snd (snd t)) \<or>
         snd (snd t) \<in> fst ` set (settled s))"
    unfolding client_inv_def by blast
  from bspec[OF this t] show ?thesis by auto
qed

lemma client_inv_settled: "client_inv s \<Longrightarrow> (p, r) \<in> set (settled s) \<Longrightarrow> p < promises s"
proof -
  assume "client_inv s" and c: "(p, r) \<in> set (settled s)"
  then have "\<forall>c \<in> set (settled s). fst c < promises s"
    unfolding client_inv_def by blast
  from bspec[OF this c] show ?thesis by simp
qed

text \<open>Settling the promise of an entry and deleting the entry keeps the invariant.\<close>

lemma client_inv_settle:
  assumes inv: "client_inv s" and pend: "pendingRequests s i = Some p"
  shows "client_inv (s\<lparr>pendingRequests := (pendingRequests s)(i := None),
                       settled := settled s @ [(p, r)]\<rparr>)"
    (is "client_inv ?s'")
proof (rule client_invI)
  from client_inv_pending[OF inv pend]
  have ip: "i = of_nat (Suc p)" "p < promises s" "p \<notin> fst ` set (settled s)" by auto
  show "process ?s' \<noteq> None" using client_inv_process[OF inv] by (simp del: of_nat_Suc)
  show "promises ?s' = requestId ?s'" using client_inv_promises[OF inv] by (simp del: of_nat_Suc)
  show "distinct (map fst (settled ?s'))"
    using client_inv_distinct[OF inv] ip(3) by (simp del: of_nat_Suc)
  show "p' < promises ?s'" if "(p', r') \<in> set (settled ?s')" for p' r'
    using that client_inv_settled[OF inv, of p' r'] ip(2) by (auto simp del: of_nat_Suc)
  show "j = of_nat (Suc q) \<and> q < promises ?s' \<and> q \<notin> fst ` set (settled ?s')"
    if "pendingRequests ?s' j = Some q" for j q
  proof -
    from that have ji: "j \<noteq> i" and pj: "pendingRequests s j = Some q"
      by (auto split: if_splits)
    from client_inv_pending[OF inv pj]
    have jq: "j = of_nat (Suc q)" "q < promises s" "q \<notin> fst ` set (settled s)" by auto
    from ji jq(1) ip(1) have "q \<noteq> p" by (auto simp del: of_nat_Suc)
    with jq show ?thesis by (simp del: of_nat_Suc)
  qed
  show "j = of_nat (Suc q) \<and> q < promises ?s' \<and>
        (pendingRequests ?s' j = Some q \<or> q \<in> fst ` set (settled ?s'))"
    if "(j, m, q) \<in> set (timers ?s')" for j m q
  proof -
    from that have t: "(j, m, q) \<in> set (timers s)" by (simp del: of_nat_Suc)
    from client_inv_timer[OF inv t]
    have jq: "j = of_nat (Suc q)" "q < promises s"
      "pendingRequests s j = Some q \<or> q \<in> fst ` set (settled s)" by auto
    show ?thesis
    proof (cases "j = i")
      case True
      with jq(1) ip(1) have "q = p" by (simp del: of_nat_Suc)
      with jq show ?thesis by auto
    next
      case False
      with jq show ?thesis by auto
    qed
  qed
qed

lemma client_inv_handle_line:
  assumes "client_inv s"
  shows "client_inv (handle_line P s line)"
proof (cases "frame_id P line")
  case None
  with assms show ?thesis by (simp add: handle_line_eq)
next
  case (Some rid)
  show ?thesis
  proof (cases "Map_get (pendingRequests s) rid")
    case None
    with Some assms show ?thesis by (simp add: handle_line_eq)
  next
    case (Some p)
    then obtain i where rid: "rid = JNum i" and pend: "pendingRequests s i = Some p"
      by (auto simp: Map_get_Some)
    from \<open>frame_id P line = Some rid\<close> rid pend
    have eq: "handle_line P s line =
       s\<lparr>pendingRequests := (pendingRequests s)(i := None),
         settled := settled s @ [(p, response_outcome (the (frame_response P line)))]\<rparr>"
      by (simp add: handle_line_hit)
    show ?thesis
      unfolding eq using assms pend by (rule client_inv_settle)
  qed
qed

lemma client_inv_timeout:
  assumes inv: "client_inv s" and t: "t \<in> set (timers s)"
  shows "client_inv (timeout_fires t (s\<lparr>timers := remove1 t (timers s)\<rparr>))"
proof -
  obtain i m p where tt: "t = (i, m, p)" by (cases t)
  let ?s0 = "s\<lparr>timers := remove1 t (timers s)\<rparr>"
  have inv0: "client_inv ?s0"
  proof (rule client_invI)
    show "process ?s0 \<noteq> None" using client_inv_process[OF inv] by (simp del: of_nat_Suc)
    show "promises ?s0 = requestId ?s0" using client_inv_promises[OF inv] by (simp del: of_nat_Suc)
    show "distinct (map fst (settled ?s0))" using client_inv_distinct[OF inv] by (simp del: of_nat_Suc)
    show "p' < promises ?s0" if "(p', r') \<in> set (settled ?s0)" for p' r'
      using that client_inv_settled[OF inv, of p' r'] by (simp del: of_nat_Suc)
    show "j = of_nat (Suc q) \<and> q < promises ?s0 \<and> q \<notin> fst ` set (settled ?s0)"
      if "pendingRequests ?s0 j = Some q" for j q
      using that client_inv_pending[OF inv, of j q] by (simp del: of_nat_Suc)
    show "j = of_nat (Suc q) \<and> q < promises ?s0 \<and>
          (pendingRequests ?s0 j = Some q \<or> q \<in> fst ` set (settled ?s0))"
      if "(j, m', q) \<in> set (timers ?s0)" for j m' q
    proof -
      from that have "(j, m', q) \<in> set (timers s)"
        using notin_set_remove1[of "(j, m', q)" "timers s" t] by (auto simp del: of_nat_Suc)
      from client_inv_timer[OF inv this] show ?thesis by auto
    qed
  qed
  show ?thesis
  proof (cases "pendingRequests s i")
    case None
    then show ?thesis using inv0 by (simp add: timeout_fires_def tt)
  next
    case (Some q)
    from client_inv_timer[OF inv t[unfolded tt]] client_inv_pending[OF inv Some]
    have "q = p" by (auto simp del: of_nat_Suc)
    with Some have pend: "pendingRequests ?s0 i = Some p" by (simp del: of_nat_Suc)
    have "timeout_fires t ?s0 =
      ?s0\<lparr>pendingRequests := (pendingRequests ?s0)(i := None),
          settled := settled ?s0 @ [(p, Rejected (Error (JStr (''Request timeout: '' @ m))))]\<rparr>"
      using pend by (simp add: timeout_fires_def tt)
    then show ?thesis using client_inv_settle[OF inv0 pend] by (simp del: of_nat_Suc)
  qed
qed

lemma request_process:
  assumes "process s \<noteq> None"
  shows "request method params s =
    (promises s,
     s\<lparr>promises := Suc (promises s), requestId := Suc (requestId s),
       pendingRequests := (pendingRequests s)(of_nat (Suc (requestId s)) \<mapsto> promises s),
       stdin := stdin s @
         [JObj [(''jsonrpc'', JStr ''2.0''), (''id'', JNum (of_nat (Suc (requestId s)))),
                (''method'', JStr method), (''params'', params)]],
       timers := timers s @ [(of_nat (Suc (requestId s)), method, promises s)]\<rparr>)"
  using assms by (cases "process s") (simp_all add: request_def Let_def)

lemma client_inv_request:
  assumes inv: "client_inv s"
  shows "client_inv (snd (request method params s))"
proof -
  let ?n = "of_nat (Suc (requestId s)) :: rat"
  let ?s' = "s\<lparr>promises := Suc (promises s), requestId := Suc (requestId s),
       pendingRequests := (pendingRequests s)(?n \<mapsto> promises s),
       stdin := stdin s @
         [JObj [(''jsonrpc'', JStr ''2.0''), (''id'', JNum ?n),
                (''method'', JStr method), (''params'', params)]],
       timers := timers s @ [(?n, method, promises s)]\<rparr>"
  have eq: "snd (request method params s) = ?s'"
    using request_process[OF client_inv_process[OF inv]] by (simp del: of_nat_Suc)
  have pr: "promises s = requestId s" by (rule client_inv_promises[OF inv])
  have fresh: "pendingRequests s ?n = None"
  proof (cases "pendingRequests s ?n")
    case (Some q)
    from client_inv_pending[OF inv Some] pr show ?thesis by auto
  qed simp
  have unsettled: "promises s \<notin> fst ` set (settled s)"
    using client_inv_settled[OF inv] by force
  have "client_inv ?s'"
  proof (rule client_invI)
    show "process ?s' \<noteq> None" using client_inv_process[OF inv] by (simp del: of_nat_Suc)
    show "promises ?s' = requestId ?s'" using pr by (simp del: of_nat_Suc)
    show "distinct (map fst (settled ?s'))" using client_inv_distinct[OF inv] by (simp del: of_nat_Suc)
    show "p' < promises ?s'" if "(p', r') \<in> set (settled ?s')" for p' r'
      using that client_inv_settled[OF inv, of p' r'] by (simp del: of_nat_Suc)
    show "j = of_nat (Suc q) \<and> q < promises ?s' \<and> q \<notin> fst ` set (settled ?s')"
      if "pendingRequests ?s' j = Some q" for j q
    proof (cases "j = ?n")
      case True
      with that pr unsettled show ?thesis by (simp del: of_nat_Suc)
    next
      case False
      with that have "pendingRequests s j = Some q" by (simp del: of_nat_Suc)
      from client_inv_pending[OF inv this] show ?thesis by (simp del: of_nat_Suc)
    qed
    show "j = of_nat (Suc q) \<and> q < promises ?s' \<and>
          (pendingRequests ?s' j = Some q \<or> q \<in> fst ` set (settled ?s'))"
      if "(j, m, q) \<in> set (timers ?s')" for j m q
    proof (cases "(j, m, q) \<in> set (timers s)")
      case True
      from client_inv_timer[OF inv True]
      have jq: "j = of_nat (Suc q)" "q < promises s"
        "pendingRequests s j = Some q \<or> q \<in> fst ` set (settled s)" by auto
      from jq(1,2) pr have "j \<noteq> ?n" by (simp del: of_nat_Suc)
      with jq show ?thesis by (simp del: of_nat_Suc)
    next
      case False
      with that have "j = ?n" "q = promises s" by auto
      with pr show ?thesis by (simp del: of_nat_Suc)
    qed
  qed
  with eq show ?thesis by (simp del: of_nat_Suc)
qed

lemma client_inv_lines:
  "client_inv s \<Longrightarrow> client_inv (foldl (handle_line P) s ls)"
  by (induction ls arbitrary: s) (simp_all add: client_inv_handle_line)

lemma client_inv_buffer [simp]: "client_inv (s\<lparr>buffer := b\<rparr>) = client_inv s"
  by (simp add: client_inv_def)

lemma client_inv_handshake [simp]: "client_inv (s\<lparr>handshake := h\<rparr>) = client_inv s"
  by (simp add: client_inv_def)

lemma client_inv_stdin [simp]: "client_inv (s\<lparr>stdin := w\<rparr>) = client_inv s"
  by (simp add: client_inv_def)

lemma client_inv_on_data: "client_inv s \<Longrightarrow> client_inv (on_data P chunk s)"
  by (simp add: on_data_def processBuffer_def client_inv_lines split: prod.split)

lemma client_inv_spawned:
  "client_inv (MCPClient_new\<lparr>process := Some (command, args, env), listening := True\<rparr>)"
  by (simp add: client_inv_def MCPClient_new_def)

lemma client_inv_start: "client_inv (start command args env MCPClient_new)"
proof -
  let ?s0 = "MCPClient_new\<lparr>process := Some (command, args, env), listening := True\<rparr>"
  have "client_inv (snd (request ''initialize'' initialize_params ?s0))"
    using client_inv_spawned by (rule client_inv_request)
  then show ?thesis
    by (cases "request ''initialize'' initialize_params ?s0")
      (simp add: start_def initialize_def)
qed

lemma client_inv_resume: "client_inv s \<Longrightarrow> client_inv (initialize_resume s)"
  by (simp add: initialize_resume_def notify_def
      split: handshake.split option.split outcome.split)

lemma reachable_inv: "reachable P s \<Longrightarrow> client_inv s"
proof (induction rule: reachable.induct)
  case (started command args env)
  show ?case by (rule client_inv_start)
next
  case (sent s m a)
  then show ?case by (simp add: client_inv_request)
next
  case (received s chunk)
  then show ?case by (simp add: client_inv_on_data)
next
  case (timed_out s t)
  then show ?case by (simp add: client_inv_timeout)
next
  case (resumed s)
  then show ?case by (simp add: client_inv_resume)
qed

lemma settlements_pending:
  "client_inv s \<Longrightarrow> pendingRequests s i = Some p \<Longrightarrow> settlements p s = []"
proof -
  assume "client_inv s" "pendingRequests s i = Some p"
  from client_inv_pending[OF this] have "p \<notin> fst ` set (settled s)" by simp
  then show ?thesis
    unfolding settlements_def by (auto simp: filter_empty_conv)
qed

lemma settlements_once: "distinct (map fst cs) \<Longrightarrow> length (filter (\<lambda>c. fst c = p) cs) \<le> 1"
proof (induction cs)
  case Nil
  show ?case by simp
next
  case (Cons c cs)
  show ?case
  proof (cases "fst c = p")
    case True
    with Cons.prems have "p \<notin> fst ` set cs" by auto
    then have "filter (\<lambda>c. fst c = p) cs = []"
      by (auto simp: filter_empty_conv)
    with True show ?thesis by simp
  next
    case False
    with Cons show ?thesis by simp
  qed
qed

lemma timeout_fires_absent:
  "pendingRequests (timeout_fires (i, m, p) s) i = None"
  by (simp add: timeout_fires_def)

subsection \<open>Settling at most once\<close>

text \<open>
  Claim C6. In every state that sends, chunks of output and timeouts can lead to, no
  promise has had more than one call of its \<^verbatim>\<open>resolve\<close> or \<^verbatim>\<open>reject\<close>; the id the next
  request takes has no entry, so no entry is ever overwritten; no two entries belong to
  the same call, and a call with an entry is unsettled. A line whose id has no entry
  leaves the state as it is; that is the case of a response to a call whose timeout has
  fired, since the timeout removes the entry.
\<close>

theorem settled_at_most_once:
  assumes "reachable JSON_parse s"
  shows "distinct (map fst (settled s)) \<and>
    (\<forall>p. length (settlements p s) \<le> 1) \<and>
    pendingRequests s (of_nat (Suc (requestId s))) = None \<and>
    (\<forall>i j p. pendingRequests s i = Some p \<and> pendingRequests s j = Some p \<longrightarrow> i = j) \<and>
    (\<forall>i p. pendingRequests s i = Some p \<longrightarrow> settlements p s = []) \<and>
    (\<forall>line rid. frame_id JSON_parse line = Some rid \<and>
        Map_get (pendingRequests s) rid = None \<longrightarrow> handle_line JSON_parse s line = s) \<and>
    (\<forall>i m p line. frame_id JSON_parse line = Some (JNum i) \<longrightarrow>
        handle_line JSON_parse (timeout_fires (i, m, p) s) line = timeout_fires (i, m, p) s)"
proof -
  from assms have inv: "client_inv s" by (rule reachable_inv)
  have d: "distinct (map fst (settled s))" by (rule client_inv_distinct[OF inv])
  have once: "\<forall>p. length (settlements p s) \<le> 1"
    using settlements_once[OF d] by (simp add: settlements_def)
  have fresh: "pendingRequests s (of_nat (Suc (requestId s))) = None"
  proof (cases "pendingRequests s (of_nat (Suc (requestId s)))")
    case (Some q)
    from client_inv_pending[OF inv Some] client_inv_promises[OF inv] show ?thesis by auto
  qed simp
  have inj: "\<forall>i j p. pendingRequests s i = Some p \<and> pendingRequests s j = Some p \<longrightarrow> i = j"
    using client_inv_pending[OF inv] by blast
  have unsettled: "\<forall>i p. pendingRequests s i = Some p \<longrightarrow> settlements p s = []"
    using settlements_pending[OF inv] by blast
  have late: "\<forall>line rid. frame_id JSON_parse line = Some rid \<and>
        Map_get (pendingRequests s) rid = None \<longrightarrow> handle_line JSON_parse s line = s"
    using handle_line_miss by blast
  have after: "\<forall>i m p line. frame_id JSON_parse line = Some (JNum i) \<longrightarrow>
        handle_line JSON_parse (timeout_fires (i, m, p) s) line = timeout_fires (i, m, p) s"
    by (simp add: handle_line_miss Map_get_def timeout_fires_absent)
  from d once fresh inj unsettled late after show ?thesis by blast
qed

text \<open>The state in which \<^verbatim>\<open>start\<close> waits for the reply to \<^verbatim>\<open>initialize\<close>.\<close>

lemma start_value:
  "start command args env MCPClient_new =
    \<lparr>process = Some (command, args, env), requestId = 1,
     pendingRequests = [1 \<mapsto> 0], buffer = [], listening = True,
     stdin = [JObj [(''jsonrpc'', JStr ''2.0''), (''id'', JNum 1),
                    (''method'', JStr ''initialize''), (''params'', initialize_params)]],
     timers = [(1, ''initialize'', 0)], promises = 1, settled = [],
     handshake = Awaiting 0\<rparr>"
  by (simp add: start_def initialize_def request_def MCPClient_new_def Let_def)

lemma frame_id_example_1:
  \<open>frame_id JSON_parse_excerpt ''{"id":1,"result":"a"}'' = Some (JNum 1)\<close>
  by (simp add: frame_id_def frame_response_def JSON_parse_excerpt_def trim_def is_space_def)

text \<open>
  The theorem at the state after \<^verbatim>\<open>start\<close>: the timeout of \<^verbatim>\<open>initialize\<close> fires, then
  the reply with id 1 arrives and changes nothing.
\<close>

theorem settled_at_most_once_witness:
  \<open>distinct (map fst (settled (start ''npx'' [] [] MCPClient_new))) \<and>
   handle_line JSON_parse_excerpt
     (timeout_fires (1, ''initialize'', 0) (start ''npx'' [] [] MCPClient_new))
     ''{"id":1,"result":"a"}'' =
   timeout_fires (1, ''initialize'', 0) (start ''npx'' [] [] MCPClient_new) \<and>
   settled (timeout_fires (1, ''initialize'', 0) (start ''npx'' [] [] MCPClient_new)) =
     [(0, Rejected (Error (JStr ''Request timeout: initialize'')))]\<close>
proof -
  have r: "reachable JSON_parse_excerpt (start ''npx'' [] [] MCPClient_new)"
    by (rule reachable.started)
  have v: "settled (timeout_fires (1, ''initialize'', 0) (start ''npx'' [] [] MCPClient_new)) =
     [(0, Rejected (Error (JStr ''Request timeout: initialize'')))]"
    by (simp add: start_value timeout_fires_def)
  from settled_at_most_once[OF r] frame_id_example_1 v show ?thesis by blast
qed

subsection \<open>The frame reader\<close>

lemma split_nl_nonempty [simp]: "split_nl xs \<noteq> []"
  by (induction xs) auto

lemma split_nl_no_newline: "CHR 0x0A \<notin> set xs \<Longrightarrow> split_nl xs = [xs]"
  by (induction xs) auto

lemma split_nl_frame:
  "CHR 0x0A \<notin> set f \<Longrightarrow> split_nl (f @ CHR 0x0A # rest) = f # split_nl rest"
  by (induction f) auto

lemma split_nl_segments: "l \<in> set (split_nl xs) \<Longrightarrow> CHR 0x0A \<notin> set l"
proof (induction xs arbitrary: l)
  case Nil
  then show ?case by simp
next
  case (Cons c cs)
  obtain h t where ht: "split_nl cs = h # t" by (cases "split_nl cs") simp_all
  show ?case
  proof (cases "c = CHR 0x0A")
    case True
    with Cons show ?thesis by auto
  next
    case False
    with Cons.prems ht have "l = c # h \<or> l \<in> set t" by simp
    with Cons.IH[of h] Cons.IH[of l] ht False show ?thesis by auto
  qed
qed

lemma split_nl_append:
  "split_nl (xs @ ys) = butlast (split_nl xs) @ split_nl (last (split_nl xs) @ ys)"
proof (induction xs)
  case Nil
  show ?case by simp
next
  case (Cons c cs)
  obtain h t where ht: "split_nl cs = h # t" by (cases "split_nl cs") simp_all
  show ?case
  proof (cases "c = CHR 0x0A")
    case True
    with Cons show ?thesis by simp
  next
    case False
    show ?thesis
    proof (cases t)
      case Nil
      with ht have one: "split_nl cs = [h]" by simp
      with Cons have "split_nl (cs @ ys) = split_nl (h @ ys)" by simp
      with False one show ?thesis by simp
    next
      case (Cons h' t')
      with ht have "butlast (split_nl cs) = h # butlast t" by simp
      with Cons.IH Cons ht False show ?thesis by simp
    qed
  qed
qed

lemma split_nl_join:
  "concat (map (\<lambda>l. l @ [CHR 0x0A]) (butlast (split_nl xs))) @ last (split_nl xs) = xs"
proof (induction xs)
  case Nil
  show ?case by simp
next
  case (Cons c cs)
  obtain h t where ht: "split_nl cs = h # t" by (cases "split_nl cs") simp_all
  with Cons show ?case by (cases t) (auto split: if_splits)
qed

lemma pop_split_nl:
  "pop (split_nl xs) = (Some (last (split_nl xs)), butlast (split_nl xs))"
  by (simp add: pop_def)

lemma or_empty_Some [simp]: "or_empty (Some l) = l"
  by (simp add: or_empty_def)

lemma feed_eq:
  "CHR 0x0A \<notin> set acc \<Longrightarrow>
   feed acc chunks =
     (butlast (split_nl (acc @ concat chunks)), last (split_nl (acc @ concat chunks)))"
proof (induction chunks arbitrary: acc)
  case Nil
  then show ?case by (simp add: split_nl_no_newline)
next
  case (Cons chunk chunks)
  let ?acc' = "last (split_nl (acc @ chunk))"
  have "CHR 0x0A \<notin> set ?acc'"
    by (rule split_nl_segments[of _ "acc @ chunk"]) simp
  from Cons.IH[OF this]
  have ih: "feed ?acc' chunks =
    (butlast (split_nl (?acc' @ concat chunks)), last (split_nl (?acc' @ concat chunks)))" .
  have app: "split_nl ((acc @ chunk) @ concat chunks) =
    butlast (split_nl (acc @ chunk)) @ split_nl (?acc' @ concat chunks)"
    by (rule split_nl_append)
  show ?case
    using ih app by (simp add: pop_split_nl butlast_append)
qed

lemma on_data_eq:
  "on_data P chunk s =
     (foldl (handle_line P) s (butlast (split_nl (buffer s @ chunk))))
       \<lparr>buffer := last (split_nl (buffer s @ chunk))\<rparr>"
proof -
  have move: "foldl (handle_line P) (s'\<lparr>buffer := b\<rparr>) ls =
      (foldl (handle_line P) s' ls)\<lparr>buffer := b\<rparr>" for s' b ls
    by (induction ls arbitrary: s') (simp_all add: handle_line_buffer_update)
  show ?thesis
    by (simp add: on_data_def processBuffer_def pop_split_nl move)
qed

lemma foldl_handle_line_buffer [simp]: "buffer (foldl (handle_line P) s ls) = buffer s"
  by (induction ls arbitrary: s) simp_all

lemma on_data_feed:
  "foldl (\<lambda>s chunk. on_data P chunk s) s chunks =
     (foldl (handle_line P) s (fst (feed (buffer s) chunks)))
       \<lparr>buffer := snd (feed (buffer s) chunks)\<rparr>"
proof (induction chunks arbitrary: s)
  case Nil
  show ?case by simp
next
  case (Cons chunk chunks)
  have move: "foldl (handle_line P) (s'\<lparr>buffer := b\<rparr>) ls =
      (foldl (handle_line P) s' ls)\<lparr>buffer := b\<rparr>" for s' b ls
    by (induction ls arbitrary: s') (simp_all add: handle_line_buffer_update)
  obtain later final where f: "feed (last (split_nl (buffer s @ chunk))) chunks = (later, final)"
    by (cases "feed (last (split_nl (buffer s @ chunk))) chunks")
  show ?case
    using Cons.IH[of "on_data P chunk s"] f
    by (simp add: on_data_eq pop_split_nl move)
qed

lemma reachable_buffer: "reachable P s \<Longrightarrow> CHR 0x0A \<notin> set (buffer s)"
proof (induction rule: reachable.induct)
  case (started command args env)
  show ?case by (simp add: start_def initialize_def request_def Let_def MCPClient_new_def)
next
  case (sent s m a)
  then show ?case by (simp add: request_def Let_def)
next
  case (received s chunk)
  have "last (split_nl (buffer s @ chunk)) \<in> set (split_nl (buffer s @ chunk))" by simp
  then have "CHR 0x0A \<notin> set (last (split_nl (buffer s @ chunk)))"
    by (rule split_nl_segments)
  then show ?case by (simp add: on_data_eq)
next
  case (timed_out s t)
  then show ?case by (simp add: timeout_fires_def split: prod.split)
next
  case (resumed s)
  then show ?case
    by (simp add: initialize_resume_def notify_def
        split: handshake.split option.split outcome.split)
qed

text \<open>
  Claim C4. Each chunk is appended to the one accumulator, which in a session never
  holds a newline (\<open>reachable_buffer\<close>).
  Over any sequence of chunks the lines handed to the loop are, in order, the segments
  of the accumulated input that a newline ends, and the accumulator left over is the
  segment after the last newline: putting a newline after each line and the accumulator
  at the end gives back the input, so every ended segment is handed over once and the
  unfinished one is kept. The client's state after the chunks is the state after the
  loop body has run once on each of these lines. A frame cut in two by a chunk boundary
  comes out as one line, and two frames in one chunk come out as two lines.
\<close>

theorem frame_reader:
  assumes "CHR 0x0A \<notin> set (buffer s)"
  shows "feed (buffer s) chunks =
      (butlast (split_nl (buffer s @ concat chunks)),
       last (split_nl (buffer s @ concat chunks))) \<and>
    concat (map (\<lambda>l. l @ [CHR 0x0A]) (fst (feed (buffer s) chunks))) @
      snd (feed (buffer s) chunks) = buffer s @ concat chunks \<and>
    (\<forall>l \<in> set (fst (feed (buffer s) chunks)). CHR 0x0A \<notin> set l) \<and>
    CHR 0x0A \<notin> set (snd (feed (buffer s) chunks)) \<and>
    foldl (\<lambda>s chunk. on_data JSON_parse chunk s) s chunks =
      (foldl (handle_line JSON_parse) s (fst (feed (buffer s) chunks)))
        \<lparr>buffer := snd (feed (buffer s) chunks)\<rparr> \<and>
    (CHR 0x0A \<notin> set (a @ b) \<longrightarrow> feed [] [a, b @ [CHR 0x0A]] = ([a @ b], [])) \<and>
    (CHR 0x0A \<notin> set f1 \<and> CHR 0x0A \<notin> set f2 \<longrightarrow>
       feed [] [f1 @ [CHR 0x0A] @ f2 @ [CHR 0x0A]] = ([f1, f2], []))"
proof -
  let ?all = "buffer s @ concat chunks"
  have eq: "feed (buffer s) chunks = (butlast (split_nl ?all), last (split_nl ?all))"
    using assms by (rule feed_eq)
  have join: "concat (map (\<lambda>l. l @ [CHR 0x0A]) (fst (feed (buffer s) chunks))) @
      snd (feed (buffer s) chunks) = ?all"
    by (simp add: eq split_nl_join)
  have segs: "\<forall>l \<in> set (fst (feed (buffer s) chunks)). CHR 0x0A \<notin> set l"
    using split_nl_segments[of _ ?all] by (auto simp: eq dest: in_set_butlastD)
  have rest: "CHR 0x0A \<notin> set (snd (feed (buffer s) chunks))"
    unfolding eq snd_conv by (rule split_nl_segments[of _ ?all]) simp
  have straddle: "feed [] [a, b @ [CHR 0x0A]] = ([a @ b], [])" if "CHR 0x0A \<notin> set (a @ b)"
  proof -
    have ab: "split_nl (a @ b @ [CHR 0x0A]) = [a @ b, []]"
      using split_nl_frame[OF that, of "[]"] by simp
    have "feed [] [a, b @ [CHR 0x0A]] =
      (butlast (split_nl ([] @ concat [a, b @ [CHR 0x0A]])),
       last (split_nl ([] @ concat [a, b @ [CHR 0x0A]])))"
      by (rule feed_eq) simp
    with ab show ?thesis by simp
  qed
  have two: "feed [] [f1 @ [CHR 0x0A] @ f2 @ [CHR 0x0A]] = ([f1, f2], [])"
    if "CHR 0x0A \<notin> set f1 \<and> CHR 0x0A \<notin> set f2"
  proof -
    have "split_nl (f1 @ [CHR 0x0A] @ f2 @ [CHR 0x0A]) = [f1, f2, []]"
      using that by (simp add: split_nl_frame)
    moreover have "feed [] [f1 @ [CHR 0x0A] @ f2 @ [CHR 0x0A]] =
      (butlast (split_nl ([] @ concat [f1 @ [CHR 0x0A] @ f2 @ [CHR 0x0A]])),
       last (split_nl ([] @ concat [f1 @ [CHR 0x0A] @ f2 @ [CHR 0x0A]])))"
      by (rule feed_eq) simp
    ultimately show ?thesis by simp
  qed
  from eq join segs rest on_data_feed[of JSON_parse s chunks] straddle two
  show ?thesis by blast
qed

text \<open>The reply to \<^verbatim>\<open>initialize\<close> resolves its promise.\<close>

lemma handle_line_example_1:
  \<open>handle_line JSON_parse_excerpt (start ''npx'' [] [] MCPClient_new) ''{"id":1,"result":"a"}'' =
    (start ''npx'' [] [] MCPClient_new)
      \<lparr>pendingRequests := Map.empty, settled := [(0, Resolved (JStr ''a''))]\<rparr>\<close>
proof -
  have \<open>frame_response JSON_parse_excerpt ''{"id":1,"result":"a"}'' =
      Some (JObj [(''id'', JNum 1), (''result'', JStr ''a'')])\<close>
    by (simp add: frame_response_def JSON_parse_excerpt_def trim_def is_space_def)
  then show ?thesis
    using handle_line_hit[OF frame_id_example_1, of "start ''npx'' [] [] MCPClient_new" 0]
    by (simp add: start_value response_outcome_def opt_prop_def)
qed

text \<open>
  The theorem at the reply to \<^verbatim>\<open>initialize\<close> arriving in two chunks, and at two short
  frames in one chunk.
\<close>

theorem frame_reader_witness:
  \<open>feed [] [''{"id":1,"re'', ''sult":"a"}'' @ [CHR 0x0A]] = ([''{"id":1,"result":"a"}''], []) \<and>
   feed [] [''a'' @ [CHR 0x0A] @ ''b'' @ [CHR 0x0A]] = ([''a'', ''b''], []) \<and>
   settled (foldl (\<lambda>s chunk. on_data JSON_parse_excerpt chunk s)
              (start ''npx'' [] [] MCPClient_new)
              [''{"id":1,"re'', ''sult":"a"}'' @ [CHR 0x0A]]) =
     [(0, Resolved (JStr ''a''))]\<close>
proof -
  let ?s = "start ''npx'' [] [] MCPClient_new"
  let ?a = \<open>''{"id":1,"re''\<close>
  let ?b = \<open>''sult":"a"}''\<close>
  let ?chunks = "[?a, ?b @ [CHR 0x0A]]"
  have b: "CHR 0x0A \<notin> set (buffer ?s)" and e: "buffer ?s = []"
    by (simp_all add: start_value)
  note fr = frame_reader[OF b, of ?chunks JSON_parse_excerpt ?a ?b "''a''" "''b''"]
  have na: "CHR 0x0A \<notin> set (?a @ ?b)" by simp
  have nb: "CHR 0x0A \<notin> set ''a'' \<and> CHR 0x0A \<notin> set ''b''" by simp
  from fr na have "feed [] ?chunks = ([?a @ ?b], [])" by blast
  then have straddle: \<open>feed [] ?chunks = ([''{"id":1,"result":"a"}''], [])\<close> by simp
  from fr nb have two: "feed [] [''a'' @ [CHR 0x0A] @ ''b'' @ [CHR 0x0A]] = ([''a'', ''b''], [])"
    by blast
  from fr have "foldl (\<lambda>s chunk. on_data JSON_parse_excerpt chunk s) ?s ?chunks =
      (foldl (handle_line JSON_parse_excerpt) ?s (fst (feed (buffer ?s) ?chunks)))
        \<lparr>buffer := snd (feed (buffer ?s) ?chunks)\<rparr>"
    by blast
  then have \<open>foldl (\<lambda>s chunk. on_data JSON_parse_excerpt chunk s) ?s ?chunks =
      (handle_line JSON_parse_excerpt ?s ''{"id":1,"result":"a"}'')\<lparr>buffer := []\<rparr>\<close>
    unfolding e straddle by simp
  then have "settled (foldl (\<lambda>s chunk. on_data JSON_parse_excerpt chunk s) ?s ?chunks) =
      [(0, Resolved (JStr ''a''))]"
    by (simp add: handle_line_example_1)
  with straddle two show ?thesis by blast
qed

subsection \<open>Correlation by id\<close>









subsection \<open>Stopping\<close>

text \<open>The state with \<^verbatim>\<open>initialize\<close> and two tool calls sent and none answered.\<close>

lemma three_pending_value:
  "snd (callTool ''b'' (JObj []) (snd (callTool ''a'' (JObj []) (start ''npx'' [] [] MCPClient_new)))) =
    \<lparr>process = Some (''npx'', [], []), requestId = 3,
     pendingRequests = [1 \<mapsto> 0, 2 \<mapsto> 1, 3 \<mapsto> 2], buffer = [], listening = True,
     stdin = [JObj [(''jsonrpc'', JStr ''2.0''), (''id'', JNum 1),
                    (''method'', JStr ''initialize''), (''params'', initialize_params)],
              JObj [(''jsonrpc'', JStr ''2.0''), (''id'', JNum 2),
                    (''method'', JStr ''tools/call''),
                    (''params'', JObj [(''name'', JStr ''a''), (''arguments'', JObj [])])],
              JObj [(''jsonrpc'', JStr ''2.0''), (''id'', JNum 3),
                    (''method'', JStr ''tools/call''),
                    (''params'', JObj [(''name'', JStr ''b''), (''arguments'', JObj [])])]],
     timers = [(1, ''initialize'', 0), (2, ''tools/call'', 1), (3, ''tools/call'', 2)],
     promises = 3, settled = [], handshake = Awaiting 0\<rparr>"
  by (simp add: start_value callTool_def request_def Let_def numeral_2_eq_2)

text \<open>
  Claim C2 says that \<^verbatim>\<open>stop\<close> rejects every pending entry. It does not: with three
  calls pending, \<^verbatim>\<open>stop\<close> makes no call of a \<^verbatim>\<open>reject\<close>, and the timeouts that fire
  later find the table empty and reject nothing either, so the three promises are never
  settled.
\<close>

theorem stop_rejects_nothing:
  "pendingRequests
     (snd (callTool ''b'' (JObj []) (snd (callTool ''a'' (JObj []) (start ''npx'' [] [] MCPClient_new))))) 1
     = Some 0 \<and>
   pendingRequests
     (snd (callTool ''b'' (JObj []) (snd (callTool ''a'' (JObj []) (start ''npx'' [] [] MCPClient_new))))) 2
     = Some 1 \<and>
   pendingRequests
     (snd (callTool ''b'' (JObj []) (snd (callTool ''a'' (JObj []) (start ''npx'' [] [] MCPClient_new))))) 3
     = Some 2 \<and>
   settled (stop
     (snd (callTool ''b'' (JObj []) (snd (callTool ''a'' (JObj []) (start ''npx'' [] [] MCPClient_new))))))
     = [] \<and>
   settled (timeout_fires (3, ''tools/call'', 2) (timeout_fires (2, ''tools/call'', 1)
     (timeout_fires (1, ''initialize'', 0) (stop
     (snd (callTool ''b'' (JObj []) (snd (callTool ''a'' (JObj []) (start ''npx'' [] [] MCPClient_new)))))))))
     = []"
  unfolding three_pending_value by (simp add: stop_def timeout_fires_def)

text \<open>
  Claim C2, amended. In every state of a started session, \<^verbatim>\<open>stop\<close> calls no
  \<^verbatim>\<open>resolve\<close> and no \<^verbatim>\<open>reject\<close>; it empties the table, removes the listener and drops
  the process. A call that was pending stays unsettled, and whichever timeouts fire
  afterwards change nothing, so it is never settled.
\<close>

theorem stop_clears_silently:
  assumes "reachable JSON_parse s" and "pendingRequests s i = Some p"
  shows "settled (stop s) = settled s \<and>
    pendingRequests (stop s) = Map.empty \<and>
    listening (stop s) = False \<and>
    process (stop s) = None \<and>
    settlements p (stop s) = [] \<and>
    (\<forall>ts. foldl (\<lambda>s t. timeout_fires t s) (stop s) ts = stop s)"
proof -
  from assms(1) have inv: "client_inv s" by (rule reachable_inv)
  have running: "process s \<noteq> None" by (rule client_inv_process[OF inv])
  have unsettled: "settlements p s = []" by (rule settlements_pending[OF inv assms(2)])
  have quiet: "timeout_fires t (stop s) = stop s" for t
    using running by (simp add: stop_def timeout_fires_def split: prod.split)
  have later: "foldl (\<lambda>s t. timeout_fires t s) (stop s) ts = stop s" for ts
    by (induction ts) (simp_all add: quiet)
  from running unsettled later show ?thesis
    by (simp add: stop_def settlements_def)
qed

text \<open>The theorem at the state with three calls pending, for the second of them.\<close>

theorem stop_clears_silently_witness:
  "settlements 1 (stop
     (snd (callTool ''b'' (JObj []) (snd (callTool ''a'' (JObj []) (start ''npx'' [] [] MCPClient_new))))))
     = [] \<and>
   pendingRequests (stop
     (snd (callTool ''b'' (JObj []) (snd (callTool ''a'' (JObj []) (start ''npx'' [] [] MCPClient_new))))))
     = Map.empty \<and>
   foldl (\<lambda>s t. timeout_fires t s) (stop
     (snd (callTool ''b'' (JObj []) (snd (callTool ''a'' (JObj []) (start ''npx'' [] [] MCPClient_new))))))
     [(1, ''initialize'', 0), (2, ''tools/call'', 1), (3, ''tools/call'', 2)]
     = stop
     (snd (callTool ''b'' (JObj []) (snd (callTool ''a'' (JObj []) (start ''npx'' [] [] MCPClient_new)))))"
proof -
  let ?s1 = "snd (callTool ''a'' (JObj []) (start ''npx'' [] [] MCPClient_new))"
  let ?s = "snd (callTool ''b'' (JObj []) ?s1)"
  have "reachable JSON_parse_excerpt (start ''npx'' [] [] MCPClient_new)"
    by (rule reachable.started)
  then have "reachable JSON_parse_excerpt ?s1"
    unfolding callTool_def by (rule reachable.sent)
  then have r: "reachable JSON_parse_excerpt ?s"
    unfolding callTool_def by (rule reachable.sent)
  have p: "pendingRequests ?s 2 = Some 1"
    unfolding three_pending_value by simp
  from stop_clears_silently[OF r p] show ?thesis by blast
qed

subsection \<open>The timeout\<close>








lemma stopped_inv_handshake [simp]: "stopped_inv (s\<lparr>handshake := h\<rparr>) = stopped_inv s"
  by (simp add: stopped_inv_def)



lemma process_request [simp]: "process (snd (request method params s)) = process s"
  by (simp add: request_def Let_def)

lemma process_on_data [simp]: "process (on_data P chunk s) = process s"
proof -
  have "process (foldl (handle_line P) s' ls) = process s'" for s' ls
    by (induction ls arbitrary: s') (simp_all add: handle_line_eq split: option.split)
  then show ?thesis by (simp add: on_data_eq)
qed

lemma process_timeout [simp]: "process (timeout_fires t s) = process s"
  by (simp add: timeout_fires_def split: prod.split)

lemma process_resume [simp]: "process (initialize_resume s) = process s"
  by (simp add: initialize_resume_def notify_def
      split: handshake.split option.split outcome.split)





subsection \<open>The handshake\<close>

text \<open>
  Claim C7 says that a tool call on a session whose handshake has not completed is
  rejected and not issued. In the state \<^verbatim>\<open>start\<close> leaves while \<^verbatim>\<open>initialize\<close> is
  unanswered, \<^verbatim>\<open>callTool\<close> writes its request to the worker after the \<^verbatim>\<open>initialize\<close>
  request, rejects nothing and leaves the call pending.
\<close>

theorem callTool_during_handshake:
  "handshake (start ''npx'' [] [] MCPClient_new) = Awaiting 0 \<and>
   settled (start ''npx'' [] [] MCPClient_new) = [] \<and>
   stdin (snd (callTool ''a'' (JObj []) (start ''npx'' [] [] MCPClient_new))) =
     [JObj [(''jsonrpc'', JStr ''2.0''), (''id'', JNum 1),
            (''method'', JStr ''initialize''), (''params'', initialize_params)],
      JObj [(''jsonrpc'', JStr ''2.0''), (''id'', JNum 2),
            (''method'', JStr ''tools/call''),
            (''params'', JObj [(''name'', JStr ''a''), (''arguments'', JObj [])])]] \<and>
   settled (snd (callTool ''a'' (JObj []) (start ''npx'' [] [] MCPClient_new))) = [] \<and>
   pendingRequests (snd (callTool ''a'' (JObj []) (start ''npx'' [] [] MCPClient_new))) 2 = Some 1 \<and>
   handshake (snd (callTool ''a'' (JObj []) (start ''npx'' [] [] MCPClient_new))) = Awaiting 0"
  by (simp add: start_value callTool_def request_def Let_def)

text \<open>
  Claim C7, amended. \<^verbatim>\<open>callTool\<close> does not look at the handshake. On a client with a
  process it writes the \<^verbatim>\<open>tools/call\<close> request, settles nothing and leaves the call in
  the table; only on a client without a process is the call rejected, by the TypeError,
  with nothing written. \<^verbatim>\<open>start\<close> writes the \<^verbatim>\<open>initialize\<close> request first, and the
  \<^verbatim>\<open>initialized\<close> notification is written only by the resumption of \<^verbatim>\<open>initialize\<close>
  after its request has been resolved.
\<close>

theorem callTool_unguarded:
  "(process s \<noteq> None \<longrightarrow>
      stdin (snd (callTool name args s)) = stdin s @
        [JObj [(''jsonrpc'', JStr ''2.0''), (''id'', JNum (of_nat (Suc (requestId s)))),
               (''method'', JStr ''tools/call''),
               (''params'', JObj [(''name'', JStr name),
                  (''arguments'', if args = JUndefined then JObj [] else args)])]] \<and>
      settled (snd (callTool name args s)) = settled s \<and>
      pendingRequests (snd (callTool name args s)) (of_nat (Suc (requestId s))) =
        Some (fst (callTool name args s))) \<and>
   (process s = None \<longrightarrow>
      stdin (snd (callTool name args s)) = stdin s \<and>
      settled (snd (callTool name args s)) =
        settled s @ [(fst (callTool name args s), Rejected TypeError)]) \<and>
   stdin (start command a env MCPClient_new) =
     [JObj [(''jsonrpc'', JStr ''2.0''), (''id'', JNum 1),
            (''method'', JStr ''initialize''), (''params'', initialize_params)]] \<and>
   (stdin (initialize_resume s) \<noteq> stdin s \<longrightarrow>
      (\<exists>p r. handshake s = Awaiting p \<and> map_of (settled s) p = Some (Resolved r)) \<and>
      stdin (initialize_resume s) = stdin s @
        [JObj [(''jsonrpc'', JStr ''2.0''), (''method'', JStr ''notifications/initialized''),
               (''params'', JObj [])]] \<and>
      handshake (initialize_resume s) = Completed)"
proof -
  have a: "process s \<noteq> None \<longrightarrow>
      stdin (snd (callTool name args s)) = stdin s @
        [JObj [(''jsonrpc'', JStr ''2.0''), (''id'', JNum (of_nat (Suc (requestId s)))),
               (''method'', JStr ''tools/call''),
               (''params'', JObj [(''name'', JStr name),
                  (''arguments'', if args = JUndefined then JObj [] else args)])]] \<and>
      settled (snd (callTool name args s)) = settled s \<and>
      pendingRequests (snd (callTool name args s)) (of_nat (Suc (requestId s))) =
        Some (fst (callTool name args s))"
    by (simp add: callTool_def request_process del: of_nat_Suc)
  have b: "process s = None \<longrightarrow>
      stdin (snd (callTool name args s)) = stdin s \<and>
      settled (snd (callTool name args s)) =
        settled s @ [(fst (callTool name args s), Rejected TypeError)]"
    by (simp add: callTool_def request_def Let_def)
  have c: "stdin (start command a env MCPClient_new) =
     [JObj [(''jsonrpc'', JStr ''2.0''), (''id'', JNum 1),
            (''method'', JStr ''initialize''), (''params'', initialize_params)]]"
    by (simp add: start_value)
  have d: "stdin (initialize_resume s) \<noteq> stdin s \<longrightarrow>
      (\<exists>p r. handshake s = Awaiting p \<and> map_of (settled s) p = Some (Resolved r)) \<and>
      stdin (initialize_resume s) = stdin s @
        [JObj [(''jsonrpc'', JStr ''2.0''), (''method'', JStr ''notifications/initialized''),
               (''params'', JObj [])]] \<and>
      handshake (initialize_resume s) = Completed"
    by (simp add: initialize_resume_def notify_def
        split: handshake.split option.split outcome.split)
  from a b c d show ?thesis by blast
qed

text \<open>The theorem at a client that is waiting for \<^verbatim>\<open>initialize\<close> and at a new client.\<close>

theorem callTool_unguarded_witness:
  "stdin (snd (callTool ''a'' (JObj []) (start ''npx'' [] [] MCPClient_new))) =
     stdin (start ''npx'' [] [] MCPClient_new) @
     [JObj [(''jsonrpc'', JStr ''2.0''), (''id'', JNum 2),
            (''method'', JStr ''tools/call''),
            (''params'', JObj [(''name'', JStr ''a''), (''arguments'', JObj [])])]] \<and>
   settled (snd (callTool ''a'' (JObj []) (start ''npx'' [] [] MCPClient_new))) = [] \<and>
   stdin (snd (callTool ''a'' (JObj []) MCPClient_new)) = [] \<and>
   settled (snd (callTool ''a'' (JObj []) MCPClient_new)) = [(0, Rejected TypeError)]"
proof -
  let ?s = "start ''npx'' [] [] MCPClient_new"
  have p: "process ?s \<noteq> None" "settled ?s = []" "requestId ?s = 1"
    by (simp_all add: start_value)
  have n: "process MCPClient_new = None" "settled MCPClient_new = []" "stdin MCPClient_new = []"
    "fst (callTool ''a'' (JObj []) MCPClient_new) = 0"
    by (simp_all add: MCPClient_new_def callTool_def request_def Let_def)
  from callTool_unguarded[of ?s "''a''" "JObj []"] p
  have a: "stdin (snd (callTool ''a'' (JObj []) ?s)) = stdin ?s @
     [JObj [(''jsonrpc'', JStr ''2.0''), (''id'', JNum 2),
            (''method'', JStr ''tools/call''),
            (''params'', JObj [(''name'', JStr ''a''), (''arguments'', JObj [])])]] \<and>
     settled (snd (callTool ''a'' (JObj []) ?s)) = []"
    by simp
  from callTool_unguarded[of MCPClient_new "''a''" "JObj []"] n
  have b: "stdin (snd (callTool ''a'' (JObj []) MCPClient_new)) = [] \<and>
     settled (snd (callTool ''a'' (JObj []) MCPClient_new)) = [(0, Rejected TypeError)]"
    by simp
  from a b show ?thesis by blast
qed

end
